theory Spec2Isabelle
  imports Main
begin

section \<open>Data model (src/types/index.ts)\<close>

text \<open>
  A vote is one of the two string literals \<^verbatim>\<open>'green' | 'red'\<close>. Where the source has
  \<^verbatim>\<open>'green' | 'red' | null\<close> the model has \<open>vote_type option\<close>, \<open>None\<close> being \<^verbatim>\<open>null\<close>.
\<close>

datatype vote_type = Green | Red

type_synonym post_id = string
type_synonym user_id = string

text \<open>
  The \<^verbatim>\<open>Post\<close> interface. The field \<^verbatim>\<open>id\<close> is called \<open>post_id\<close> here (\<open>id\<close> is the
  identity function of HOL). Optional fields are options; the joined \<^verbatim>\<open>profiles\<close> record is
  kept as the username it carries. The counts are JavaScript numbers that the card
  decrements, so they are integers.
\<close>

record post =
  post_id :: post_id
  created_by :: user_id
  image_url :: string
  person_name :: "string option"
  description :: "string option"
  is_active :: bool
  created_at :: string
  green_votes :: "int option"
  red_votes :: "int option"
  user_vote :: "vote_type option"
  profiles :: "string option"

text \<open>JavaScript truthiness of an optional string: \<^verbatim>\<open>undefined\<close>, \<^verbatim>\<open>null\<close> and \<^verbatim>\<open>''\<close> are falsy.\<close>

fun truthy :: "string option \<Rightarrow> bool" where
  "truthy None = False"
| "truthy (Some u) = (u \<noteq> [])"

section \<open>The vote hook (src/hooks/useVote.ts)\<close>

text \<open>
  The hook keeps \<^verbatim>\<open>isVoting\<close>, the record \<^verbatim>\<open>optimisticVotes\<close> (a key that is absent is
  \<^verbatim>\<open>undefined\<close>, a key that is present holds a vote or \<^verbatim>\<open>null\<close>) and the ref
  \<^verbatim>\<open>voteTimeouts\<close> (post id to timer handle). The JavaScript event loop is made explicit:
  \<open>clock\<close> is the time in milliseconds, \<open>timers\<close> holds the armed \<^verbatim>\<open>setTimeout\<close> callbacks
  with their handle and due time, \<open>inflight\<close> the network calls that are awaited, and
  \<open>sent\<close> logs every network call issued, oldest first.
\<close>

datatype request =
    VoteOnPost user_id post_id vote_type
  | RemoveVote user_id post_id

fun request_post :: "request \<Rightarrow> post_id" where
  "request_post (VoteOnPost u p k) = p"
| "request_post (RemoveVote u p) = p"

text \<open>
  The three callbacks the hook hands to \<^verbatim>\<open>setTimeout\<close>: the 300 ms callback of \<^verbatim>\<open>vote\<close>,
  the 300 ms callback of \<^verbatim>\<open>removeVote\<close> (each closes over \<^verbatim>\<open>userId\<close>, \<^verbatim>\<open>postId\<close> and,
  for \<^verbatim>\<open>vote\<close>, \<^verbatim>\<open>voteType\<close>), and the 1000 ms callback that clears the optimistic entry
  after a successful call.
\<close>

datatype callback =
    SubmitVote user_id post_id vote_type
  | SubmitRemove user_id post_id
  | ClearOptimistic post_id

text \<open>
  How an awaited service call ends: \<^verbatim>\<open>{ error: null }\<close>, \<^verbatim>\<open>{ error: '...' }\<close>, or a rejected
  promise (the \<^verbatim>\<open>catch\<close> branch).
\<close>

datatype outcome = Succeeded | Failed | Threw

record vote_hook =
  userId :: "user_id option"
  isVoting :: bool
  optimisticVotes :: "post_id \<rightharpoonup> vote_type option"
  voteTimeouts :: "post_id \<rightharpoonup> nat"
  clock :: nat
  nextHandle :: nat
  timers :: "(nat \<times> nat \<times> callback) list"
  nextCall :: nat
  inflight :: "(nat \<times> request) list"
  sent :: "request list"

text \<open>The state of a freshly rendered hook. Timer handles are positive, hence truthy.\<close>

definition useVote :: "user_id option \<Rightarrow> vote_hook" where
  "useVote uid =
     \<lparr> userId = uid, isVoting = False, optimisticVotes = Map.empty,
       voteTimeouts = Map.empty, clock = 0, nextHandle = 1, timers = [],
       nextCall = 1, inflight = [], sent = [] \<rparr>"

definition setTimeout :: "callback \<Rightarrow> nat \<Rightarrow> vote_hook \<Rightarrow> nat \<times> vote_hook" where
  "setTimeout cb delay s =
     (nextHandle s,
      s\<lparr> timers := (nextHandle s, clock s + delay, cb) # timers s,
         nextHandle := Suc (nextHandle s) \<rparr>)"

definition clearTimeout :: "nat \<Rightarrow> vote_hook \<Rightarrow> vote_hook" where
  "clearTimeout h s = s\<lparr> timers := filter (\<lambda>x. fst x \<noteq> h) (timers s) \<rparr>"

text \<open>
  \<^verbatim>\<open>vote\<close>: nothing without a user; otherwise clear the timer registered for the post,
  set the optimistic entry, arm the 300 ms callback and register its handle.
\<close>

definition vote :: "post_id \<Rightarrow> vote_type \<Rightarrow> vote_hook \<Rightarrow> vote_hook" where
  "vote postId voteType s =
     (case userId s of
        None \<Rightarrow> s
      | Some u \<Rightarrow>
          if u = [] then s
          else
            let s1 = (case voteTimeouts s postId of
                        None \<Rightarrow> s
                      | Some h \<Rightarrow> clearTimeout h s);
                s2 = s1\<lparr> optimisticVotes := (optimisticVotes s1)(postId \<mapsto> Some voteType) \<rparr>;
                (h, s3) = setTimeout (SubmitVote u postId voteType) 300 s2
            in s3\<lparr> voteTimeouts := (voteTimeouts s3)(postId \<mapsto> h) \<rparr>)"

text \<open>\<^verbatim>\<open>removeVote\<close>: the same, with the optimistic entry set to \<^verbatim>\<open>null\<close>.\<close>

definition removeVote :: "post_id \<Rightarrow> vote_hook \<Rightarrow> vote_hook" where
  "removeVote postId s =
     (case userId s of
        None \<Rightarrow> s
      | Some u \<Rightarrow>
          if u = [] then s
          else
            let s1 = (case voteTimeouts s postId of
                        None \<Rightarrow> s
                      | Some h \<Rightarrow> clearTimeout h s);
                s2 = s1\<lparr> optimisticVotes := (optimisticVotes s1)(postId \<mapsto> None) \<rparr>;
                (h, s3) = setTimeout (SubmitRemove u postId) 300 s2
            in s3\<lparr> voteTimeouts := (voteTimeouts s3)(postId \<mapsto> h) \<rparr>)"

text \<open>
  \<^verbatim>\<open>toggleVote\<close> and \<^verbatim>\<open>getEffectiveVote\<close>. A key of \<^verbatim>\<open>optimisticVotes\<close> that is absent
  reads as \<^verbatim>\<open>undefined\<close>, and only then the server's vote is returned.
\<close>

definition toggleVote :: "post_id \<Rightarrow> vote_type option \<Rightarrow> vote_type \<Rightarrow> vote_hook \<Rightarrow> vote_hook" where
  "toggleVote postId currentVote newVoteType s =
     (if currentVote = Some newVoteType then removeVote postId s
      else vote postId newVoteType s)"

definition getEffectiveVote :: "vote_hook \<Rightarrow> post_id \<Rightarrow> vote_type option \<Rightarrow> vote_type option" where
  "getEffectiveVote s postId serverVote =
     (case optimisticVotes s postId of
        None \<Rightarrow> serverVote
      | Some optimisticVote \<Rightarrow> optimisticVote)"

text \<open>
  A timer callback up to its \<^verbatim>\<open>await\<close>: \<^verbatim>\<open>setIsVoting(true)\<close> and the service call. The
  300 ms callbacks issue \<^verbatim>\<open>PostService.voteOnPost\<close> or \<^verbatim>\<open>PostService.removeVote\<close>; the
  1000 ms callback deletes the optimistic entry.
\<close>

definition issue :: "request \<Rightarrow> vote_hook \<Rightarrow> vote_hook" where
  "issue r s =
     s\<lparr> isVoting := True,
        inflight := (nextCall s, r) # inflight s,
        nextCall := Suc (nextCall s),
        sent := sent s @ [r] \<rparr>"

fun runCallback :: "callback \<Rightarrow> vote_hook \<Rightarrow> vote_hook" where
  "runCallback (SubmitVote u p k) s = issue (VoteOnPost u p k) s"
| "runCallback (SubmitRemove u p) s = issue (RemoveVote u p) s"
| "runCallback (ClearOptimistic p) s = s\<lparr> optimisticVotes := (optimisticVotes s)(p := None) \<rparr>"

text \<open>
  The rest of a 300 ms callback, after the \<^verbatim>\<open>await\<close> (the code is the same in \<^verbatim>\<open>vote\<close> and
  in \<^verbatim>\<open>removeVote\<close>): on an error or an exception the optimistic entry is deleted, on
  success the 1000 ms callback is armed; \<^verbatim>\<open>finally\<close> resets \<^verbatim>\<open>isVoting\<close> and deletes the
  post's entry of \<^verbatim>\<open>voteTimeouts\<close>.
\<close>

definition afterAwait :: "post_id \<Rightarrow> outcome \<Rightarrow> vote_hook \<Rightarrow> vote_hook" where
  "afterAwait postId out s =
     (let s1 = (case out of
                  Succeeded \<Rightarrow> snd (setTimeout (ClearOptimistic postId) 1000 s)
                | Failed \<Rightarrow> s\<lparr> optimisticVotes := (optimisticVotes s)(postId := None) \<rparr>
                | Threw \<Rightarrow> s\<lparr> optimisticVotes := (optimisticVotes s)(postId := None) \<rparr>)
      in s1\<lparr> isVoting := False, voteTimeouts := (voteTimeouts s1)(postId := None) \<rparr>)"

text \<open>
  What can happen to a hook: a call of \<^verbatim>\<open>vote\<close> or \<^verbatim>\<open>removeVote\<close>, time passing, an armed
  timer firing (never before it is due), an awaited call settling. \<open>step\<close> is \<open>None\<close>
  when the event cannot happen in the state.
\<close>

datatype event =
    CallVote post_id vote_type
  | CallRemoveVote post_id
  | Tick nat
  | Fire nat
  | Resolve nat outcome

fun step :: "event \<Rightarrow> vote_hook \<Rightarrow> vote_hook option" where
  "step (CallVote p k) s = Some (vote p k s)"
| "step (CallRemoveVote p) s = Some (removeVote p s)"
| "step (Tick n) s = Some (s\<lparr> clock := clock s + n \<rparr>)"
| "step (Fire h) s =
     (case map_of (timers s) h of
        None \<Rightarrow> None
      | Some (due, cb) \<Rightarrow>
          if clock s < due then None
          else Some (runCallback cb (clearTimeout h s)))"
| "step (Resolve c out) s =
     (case map_of (inflight s) c of
        None \<Rightarrow> None
      | Some r \<Rightarrow>
          Some (afterAwait (request_post r) out
                  (s\<lparr> inflight := filter (\<lambda>x. fst x \<noteq> c) (inflight s) \<rparr>)))"

fun run :: "event list \<Rightarrow> vote_hook \<Rightarrow> vote_hook option" where
  "run [] s = Some s"
| "run (e # es) s = (case step e s of None \<Rightarrow> None | Some s' \<Rightarrow> run es s')"

section \<open>The post card (src/components/PostCard.tsx)\<close>

text \<open>
  The card reads \<^verbatim>\<open>effectiveVote = getEffectiveVote(post.id, post.user_vote || null)\<close> and
  adjusts the server's counts by it. \<^verbatim>\<open>post.green_votes || 0\<close> is 0 for a missing count.
\<close>

definition effectiveVote :: "vote_hook \<Rightarrow> post \<Rightarrow> vote_type option" where
  "effectiveVote s post = getEffectiveVote s (post_id post) (user_vote post)"

definition greenCount :: "post \<Rightarrow> vote_type option \<Rightarrow> int" where
  "greenCount post ev =
     (let count = (case green_votes post of None \<Rightarrow> 0 | Some n \<Rightarrow> n);
          count = (if user_vote post = Some Green \<and> ev \<noteq> Some Green then count - 1 else count);
          count = (if user_vote post \<noteq> Some Green \<and> ev = Some Green then count + 1 else count)
      in count)"

definition redCount :: "post \<Rightarrow> vote_type option \<Rightarrow> int" where
  "redCount post ev =
     (let count = (case red_votes post of None \<Rightarrow> 0 | Some n \<Rightarrow> n);
          count = (if user_vote post = Some Red \<and> ev \<noteq> Some Red then count - 1 else count);
          count = (if user_vote post \<noteq> Some Red \<and> ev = Some Red then count + 1 else count)
      in count)"

text \<open>
  \<^verbatim>\<open>handleVote\<close>: an alert and nothing else without a user (the card passes its
  \<^verbatim>\<open>currentUserId\<close> to \<^verbatim>\<open>useVote\<close>, so it is the hook's \<open>userId\<close>); \<^verbatim>\<open>removeVote\<close> when the
  tapped kind is the effective vote, \<^verbatim>\<open>vote\<close> otherwise.
\<close>

definition handleVote :: "post \<Rightarrow> vote_type \<Rightarrow> vote_hook \<Rightarrow> vote_hook" where
  "handleVote post voteType s =
     (if \<not> truthy (userId s) then s
      else if effectiveVote s post = Some voteType then removeVote (post_id post) s
      else vote (post_id post) voteType s)"

text \<open>
  Both vote buttons are \<^verbatim>\<open>disabled={isVoting}\<close>: a press reaches \<^verbatim>\<open>handleVote\<close> only while
  \<open>isVoting\<close> is false.
\<close>

definition pressVote :: "post \<Rightarrow> vote_type \<Rightarrow> vote_hook \<Rightarrow> vote_hook option" where
  "pressVote post voteType s =
     (if isVoting s then None else Some (handleVote post voteType s))"

text \<open>
  What can happen to the hook of one card, which shows the post with id \<open>pid\<close> (the list
  keys its cards by post id): a press on a vote button, with the \<^verbatim>\<open>post\<close> prop of that
  moment, or time passing, a timer firing, a call settling.
\<close>

datatype card_event =
    Press post vote_type
  | Elapse nat
  | TimerFires nat
  | CallSettles nat outcome

fun card_step :: "post_id \<Rightarrow> card_event \<Rightarrow> vote_hook \<Rightarrow> vote_hook option" where
  "card_step pid (Press post k) s = (if post_id post = pid then pressVote post k s else None)"
| "card_step pid (Elapse n) s = step (Tick n) s"
| "card_step pid (TimerFires h) s = step (Fire h) s"
| "card_step pid (CallSettles c out) s = step (Resolve c out) s"

fun card_run :: "post_id \<Rightarrow> card_event list \<Rightarrow> vote_hook \<Rightarrow> vote_hook option" where
  "card_run pid [] s = Some s"
| "card_run pid (e # es) s =
     (case card_step pid e s of None \<Rightarrow> None | Some s' \<Rightarrow> card_run pid es s')"

section \<open>The feed hook (src/hooks/usePosts.ts)\<close>

text \<open>
  What \<^verbatim>\<open>await PostService.getPosts(...)\<close> gives the hook: the pair of \<^verbatim>\<open>data\<close> and
  \<^verbatim>\<open>error\<close>, or an exception.
\<close>

datatype fetched = Returned "post list option" "string option" | Rejected

text \<open>
  The state of \<^verbatim>\<open>usePosts\<close>, with the awaited \<^verbatim>\<open>loadPosts\<close> calls made explicit: \<open>loads\<close>
  holds, for each call that is waiting for \<^verbatim>\<open>getPosts\<close>, its \<^verbatim>\<open>pageNum\<close> and \<^verbatim>\<open>replace\<close>;
  \<open>requests\<close> logs the \<^verbatim>\<open>(userId, limit, offset)\<close> of every \<^verbatim>\<open>getPosts\<close> call issued.
\<close>

record posts_hook =
  feedUserId :: "user_id option"
  posts :: "post list"
  isLoading :: bool
  isLoadingMore :: bool
  error :: "string option"
  hasMore :: bool
  page :: nat
  mounted :: bool
  nextLoad :: nat
  loads :: "(nat \<times> nat \<times> bool) list"
  requests :: "(user_id option \<times> nat \<times> nat) list"

definition pageSize :: nat where
  "pageSize = 20"

definition usePosts :: "user_id option \<Rightarrow> posts_hook" where
  "usePosts uid =
     \<lparr> feedUserId = uid, posts = [], isLoading = True, isLoadingMore = False,
       error = None, hasMore = True, page = 0, mounted = True,
       nextLoad = 1, loads = [], requests = [] \<rparr>"

text \<open>\<^verbatim>\<open>loadPosts\<close> up to its \<^verbatim>\<open>await\<close>: the loading flag of the page, then the call.\<close>

definition loadPosts_call :: "nat \<Rightarrow> bool \<Rightarrow> posts_hook \<Rightarrow> posts_hook" where
  "loadPosts_call pageNum replace s =
     (let s1 = (if pageNum = 0 then s\<lparr> isLoading := True, error := None \<rparr>
                else s\<lparr> isLoadingMore := True \<rparr>);
          offset = pageNum * pageSize
      in s1\<lparr> loads := (nextLoad s1, pageNum, replace) # loads s1,
             nextLoad := Suc (nextLoad s1),
             requests := requests s1 @ [(feedUserId s1, pageSize, offset)] \<rparr>)"

text \<open>The \<^verbatim>\<open>finally\<close> block of \<^verbatim>\<open>loadPosts\<close>.\<close>

definition loadPosts_finally :: "posts_hook \<Rightarrow> posts_hook" where
  "loadPosts_finally s =
     (if mounted s then s\<lparr> isLoading := False, isLoadingMore := False \<rparr> else s)"

text \<open>
  \<^verbatim>\<open>loadPosts\<close> after its \<^verbatim>\<open>await\<close>. Nothing is applied once unmounted; an error is
  stored; a page replaces the list (\<^verbatim>\<open>replace || pageNum === 0\<close>) or is appended without
  the posts whose id the list already has; \<^verbatim>\<open>hasMore\<close> and \<^verbatim>\<open>page\<close> follow the page.
\<close>

definition loadPosts_resume :: "nat \<Rightarrow> bool \<Rightarrow> fetched \<Rightarrow> posts_hook \<Rightarrow> posts_hook" where
  "loadPosts_resume pageNum replace r s =
     (case r of
        Rejected \<Rightarrow>
          loadPosts_finally
            (if mounted s then s\<lparr> error := Some ''Failed to load posts'' \<rparr> else s)
      | Returned newPosts postsError \<Rightarrow>
          if \<not> mounted s then loadPosts_finally s
          else if truthy postsError then loadPosts_finally (s\<lparr> error := postsError \<rparr>)
          else
            (case newPosts of
               None \<Rightarrow> loadPosts_finally s
             | Some ps \<Rightarrow>
                 let s1 = (if replace \<or> pageNum = 0 then s\<lparr> posts := ps \<rparr>
                           else
                             let existingIds = set (map post_id (posts s));
                                 uniqueNewPosts = filter (\<lambda>p. post_id p \<notin> existingIds) ps
                             in s\<lparr> posts := posts s @ uniqueNewPosts \<rparr>)
                 in loadPosts_finally
                      (s1\<lparr> hasMore := (length ps = pageSize), page := pageNum \<rparr>)))"

definition refresh :: "posts_hook \<Rightarrow> posts_hook" where
  "refresh s = loadPosts_call 0 True s"

definition loadMore :: "posts_hook \<Rightarrow> posts_hook" where
  "loadMore s =
     (if isLoadingMore s \<or> \<not> hasMore s then s
      else loadPosts_call (page s + 1) False s)"

definition handleNewPost :: "post \<Rightarrow> posts_hook \<Rightarrow> posts_hook" where
  "handleNewPost newPost s =
     (if \<not> mounted s then s
      else if list_ex (\<lambda>p. post_id p = post_id newPost) (posts s) then s
      else s\<lparr> posts := newPost # posts s \<rparr>)"

text \<open>The mount effect starts the first load; its cleanup clears \<^verbatim>\<open>mounted\<close>.\<close>

definition mount :: "posts_hook \<Rightarrow> posts_hook" where
  "mount s = loadPosts_call 0 True (s\<lparr> mounted := True \<rparr>)"

definition unmount :: "posts_hook \<Rightarrow> posts_hook" where
  "unmount s = s\<lparr> mounted := False \<rparr>"

text \<open>\<^verbatim>\<open>handleEndReached\<close> of src/components/PostFeed.tsx, the caller of \<^verbatim>\<open>loadMore\<close>.\<close>

definition handleEndReached :: "posts_hook \<Rightarrow> posts_hook" where
  "handleEndReached s =
     (if hasMore s \<and> \<not> isLoadingMore s \<and> \<not> isLoading s then loadMore s else s)"

datatype feed_event =
    Refresh
  | LoadMore
  | Settle nat fetched
  | NewPost post
  | Unmount

fun feed_step :: "feed_event \<Rightarrow> posts_hook \<Rightarrow> posts_hook option" where
  "feed_step Refresh s = Some (refresh s)"
| "feed_step LoadMore s = Some (loadMore s)"
| "feed_step (Settle c r) s =
     (case map_of (loads s) c of
        None \<Rightarrow> None
      | Some (pageNum, replace) \<Rightarrow>
          Some (loadPosts_resume pageNum replace r
                  (s\<lparr> loads := filter (\<lambda>x. fst x \<noteq> c) (loads s) \<rparr>)))"
| "feed_step (NewPost p) s = Some (handleNewPost p s)"
| "feed_step Unmount s = Some (unmount s)"

fun feed_run :: "feed_event list \<Rightarrow> posts_hook \<Rightarrow> posts_hook option" where
  "feed_run [] s = Some s"
| "feed_run (e # es) s = (case feed_step e s of None \<Rightarrow> None | Some s' \<Rightarrow> feed_run es s')"

section \<open>Fetching a page (PostService.getPosts, src/services/supabase.ts)\<close>

text \<open>
  The rows of the three queries. A query of the Supabase client answers with \<^verbatim>\<open>data\<close> and
  \<^verbatim>\<open>error\<close> (an error object, here its message), or throws.
\<close>

record post_row =
  row_id :: post_id
  row_created_by :: user_id
  row_image_url :: string
  row_person_name :: "string option"
  row_description :: "string option"
  row_is_active :: "bool option"
  row_created_at :: string
  row_profiles :: "string option"

record vote_row =
  vote_post_id :: post_id
  vote_vote_type :: vote_type

datatype 'a response = Response "'a option" "string option" | Throws

text \<open>
  The body of \<^verbatim>\<open>posts.map(post => ...)\<close>: \<^verbatim>\<open>votes?.filter(...) || []\<close> is empty when
  \<^verbatim>\<open>votes\<close> is \<^verbatim>\<open>null\<close>.
\<close>

definition withVotes :: "vote_row list option \<Rightarrow> vote_row list \<Rightarrow> post_row \<Rightarrow> post" where
  "withVotes votes userVotes row =
     (let postVotes = (case votes of
                         None \<Rightarrow> []
                       | Some vs \<Rightarrow> filter (\<lambda>v. vote_post_id v = row_id row) vs);
          greenVotes = length (filter (\<lambda>v. vote_vote_type v = Green) postVotes);
          redVotes = length (filter (\<lambda>v. vote_vote_type v = Red) postVotes);
          userVote = (case find (\<lambda>v. vote_post_id v = row_id row) userVotes of
                        None \<Rightarrow> None
                      | Some v \<Rightarrow> Some (vote_vote_type v))
      in \<lparr> post_id = row_id row,
           created_by = row_created_by row,
           image_url = row_image_url row,
           person_name = row_person_name row,
           description = row_description row,
           is_active = (case row_is_active row of None \<Rightarrow> True | Some b \<Rightarrow> b),
           created_at = row_created_at row,
           green_votes = Some (int greenVotes),
           red_votes = Some (int redVotes),
           user_vote = userVote,
           profiles = row_profiles row \<rparr>)"

text \<open>
  \<^verbatim>\<open>getPosts\<close>, as a function of what its queries answer: the posts query, the votes
  query and, with a user, the query of the user's votes. Only the \<^verbatim>\<open>error\<close> of the posts
  query is read. The result is the pair of \<^verbatim>\<open>data\<close> and \<^verbatim>\<open>error\<close>.
\<close>

definition getPosts ::
  "user_id option \<Rightarrow> post_row list response \<Rightarrow> vote_row list response
     \<Rightarrow> vote_row list response \<Rightarrow> post list option \<times> string option" where
  "getPosts uid postsQuery votesQuery userVotesQuery =
     (case postsQuery of
        Throws \<Rightarrow> (None, Some ''Network error'')
      | Response rows err \<Rightarrow>
          if err \<noteq> None then (None, Some ''Failed to load posts'')
          else
            (case rows of
               None \<Rightarrow> (Some [], None)
             | Some ps \<Rightarrow>
                 if ps = [] then (Some [], None)
                 else
                   (case votesQuery of
                      Throws \<Rightarrow> (None, Some ''Network error'')
                    | Response votes verr \<Rightarrow>
                        if truthy uid then
                          (case userVotesQuery of
                             Throws \<Rightarrow> (None, Some ''Network error'')
                           | Response d derr \<Rightarrow>
                               (Some (map (withVotes votes (case d of None \<Rightarrow> [] | Some uv \<Rightarrow> uv)) ps),
                                None))
                        else (Some (map (withVotes votes []) ps), None))))"

section \<open>Auxiliary notions for the proofs\<close>

text \<open>The timers left once \<^verbatim>\<open>vote\<close> or \<^verbatim>\<open>removeVote\<close> has cleared the one registered for a post.\<close>

definition cleared :: "post_id \<Rightarrow> vote_hook \<Rightarrow> (nat \<times> nat \<times> callback) list" where
  "cleared p s =
     (case voteTimeouts s p of
        None \<Rightarrow> timers s
      | Some h \<Rightarrow> filter (\<lambda>x. fst x \<noteq> h) (timers s))"

text \<open>
  For the vote hook. The armed 300 ms callbacks of a post, the calls of a log that are
  for a post, and the awaited calls of a post.
\<close>

fun submits_for :: "post_id \<Rightarrow> callback \<Rightarrow> bool" where
  "submits_for p (SubmitVote u q k) = (q = p)"
| "submits_for p (SubmitRemove u q) = (q = p)"
| "submits_for p (ClearOptimistic q) = False"

definition submits :: "post_id \<Rightarrow> vote_hook \<Rightarrow> (nat \<times> nat \<times> callback) list" where
  "submits p s = filter (\<lambda>x. submits_for p (snd (snd x))) (timers s)"

definition calls :: "post_id \<Rightarrow> request list \<Rightarrow> request list" where
  "calls p rs = filter (\<lambda>r. request_post r = p) rs"

definition awaited :: "post_id \<Rightarrow> vote_hook \<Rightarrow> (nat \<times> request) list" where
  "awaited p s = filter (\<lambda>x. request_post (snd x) = p) (inflight s)"

text \<open>
  A tap on post \<open>p\<close> is a call of \<^verbatim>\<open>vote\<close> (its intent is \<open>Some k\<close>) or of \<^verbatim>\<open>removeVote\<close>
  (intent \<open>None\<close>) for \<open>p\<close>; \<open>taps p evs\<close> lists the intents of the taps on \<open>p\<close> in a
  trace. An intent has its callback and its network call.
\<close>

fun tap_intent :: "post_id \<Rightarrow> event \<Rightarrow> vote_type option option" where
  "tap_intent p (CallVote q k) = (if q = p then Some (Some k) else None)"
| "tap_intent p (CallRemoveVote q) = (if q = p then Some None else None)"
| "tap_intent p e = None"

definition taps :: "post_id \<Rightarrow> event list \<Rightarrow> vote_type option list" where
  "taps p evs = List.map_filter (tap_intent p) evs"

fun intent_callback :: "user_id \<Rightarrow> post_id \<Rightarrow> vote_type option \<Rightarrow> callback" where
  "intent_callback u p (Some k) = SubmitVote u p k"
| "intent_callback u p None = SubmitRemove u p"

fun intent_request :: "user_id \<Rightarrow> post_id \<Rightarrow> vote_type option \<Rightarrow> request" where
  "intent_request u p (Some k) = VoteOnPost u p k"
| "intent_request u p None = RemoveVote u p"

text \<open>
  A trace is well spaced for \<open>p\<close> when every tap on \<open>p\<close> comes less than 300 ms after
  the tap on \<open>p\<close> before it; \<open>now\<close> follows the clock and \<open>prev\<close> is the time of the
  previous tap. \<open>track\<close> returns the time and intent of the last tap.
\<close>

fun elapsed :: "event \<Rightarrow> nat" where
  "elapsed (Tick n) = n"
| "elapsed e = 0"

fun well_spaced :: "post_id \<Rightarrow> nat option \<Rightarrow> nat \<Rightarrow> event list \<Rightarrow> bool" where
  "well_spaced p prev now [] = True"
| "well_spaced p prev now (e # es) =
     (case tap_intent p e of
        None \<Rightarrow> well_spaced p prev (now + elapsed e) es
      | Some i \<Rightarrow>
          (case prev of None \<Rightarrow> True | Some t \<Rightarrow> now < t + 300)
          \<and> well_spaced p (Some now) now es)"

fun track ::
  "post_id \<Rightarrow> (nat \<times> vote_type option) option \<Rightarrow> nat \<Rightarrow> event list
     \<Rightarrow> (nat \<times> vote_type option) option" where
  "track p prev now [] = prev"
| "track p prev now (e # es) =
     (case tap_intent p e of
        None \<Rightarrow> track p prev (now + elapsed e) es
      | Some i \<Rightarrow> track p (Some (now, i)) now es)"

text \<open>
  Timer handles are never reused: the armed timers have distinct handles below
  \<open>nextHandle\<close>, as have the registered ones, and an armed timer whose handle is
  registered for a post is a 300 ms callback of that post.
\<close>

definition handles_ok :: "vote_hook \<Rightarrow> bool" where
  "handles_ok s \<longleftrightarrow>
     distinct (map fst (timers s))
     \<and> (\<forall>x\<in>set (timers s). fst x < nextHandle s)
     \<and> (\<forall>q h. voteTimeouts s q = Some h \<longrightarrow> h < nextHandle s)
     \<and> (\<forall>x\<in>set (timers s). \<forall>q. voteTimeouts s q = Some (fst x) \<longrightarrow> submits_for q (snd (snd x)))"

text \<open>The state after a tap by a signed-in user, field by field.\<close>

definition tapped :: "callback \<Rightarrow> post_id \<Rightarrow> vote_hook \<Rightarrow> vote_hook \<Rightarrow> bool" where
  "tapped cb q s s' \<longleftrightarrow>
     userId s' = userId s \<and> isVoting s' = isVoting s
     \<and> voteTimeouts s' = (voteTimeouts s)(q \<mapsto> nextHandle s)
     \<and> clock s' = clock s \<and> nextHandle s' = Suc (nextHandle s)
     \<and> timers s' = (nextHandle s, clock s + 300, cb) # cleared q s
     \<and> nextCall s' = nextCall s \<and> inflight s' = inflight s \<and> sent s' = sent s"

text \<open>
  The three situations of a post \<open>p\<close> relative to a log \<open>base\<close>: nothing armed, awaited
  or sent; one callback armed and registered, due 300 ms after \<open>t\<close>; its call sent.
\<close>

definition idle :: "post_id \<Rightarrow> request list \<Rightarrow> vote_hook \<Rightarrow> bool" where
  "idle p base s \<longleftrightarrow>
     (\<exists>new. sent s = base @ new \<and> calls p new = [])
     \<and> submits p s = [] \<and> awaited p s = []"

definition armed :: "post_id \<Rightarrow> request list \<Rightarrow> nat \<Rightarrow> callback \<Rightarrow> vote_hook \<Rightarrow> bool" where
  "armed p base t cb s \<longleftrightarrow>
     (\<exists>new. sent s = base @ new \<and> calls p new = [])
     \<and> (\<exists>h. submits p s = [(h, t + 300, cb)] \<and> voteTimeouts s p = Some h)
     \<and> awaited p s = [] \<and> t \<le> clock s"

definition submitted :: "post_id \<Rightarrow> request list \<Rightarrow> nat \<Rightarrow> request \<Rightarrow> vote_hook \<Rightarrow> bool" where
  "submitted p base t r s \<longleftrightarrow>
     (\<exists>new. sent s = base @ new \<and> calls p new = [r])
     \<and> submits p s = [] \<and> t + 300 \<le> clock s"

definition shape ::
  "post_id \<Rightarrow> user_id \<Rightarrow> request list \<Rightarrow> (nat \<times> vote_type option) option \<Rightarrow> vote_hook \<Rightarrow> bool" where
  "shape p u base prev s =
     (case prev of
        None \<Rightarrow> idle p base s
      | Some (t, i) \<Rightarrow>
          armed p base t (intent_callback u p i) s
          \<or> submitted p base t (intent_request u p i) s)"

text \<open>
  What a step that is not a tap on \<open>p\<close> does: it leaves the armed callbacks of \<open>p\<close>
  alone and sends nothing for \<open>p\<close>, or it fires one of them.
\<close>

definition passes :: "post_id \<Rightarrow> vote_hook \<Rightarrow> vote_hook \<Rightarrow> bool" where
  "passes p s s' \<longleftrightarrow>
     clock s \<le> clock s' \<and> submits p s' = submits p s
     \<and> (\<exists>rs. sent s' = sent s @ rs \<and> calls p rs = [])
     \<and> (awaited p s = [] \<longrightarrow> awaited p s' = [] \<and> voteTimeouts s' p = voteTimeouts s p)"

definition fires :: "post_id \<Rightarrow> vote_hook \<Rightarrow> vote_hook \<Rightarrow> bool" where
  "fires p s s' \<longleftrightarrow>
     (\<exists>h due cb. (h, due, cb) \<in> set (submits p s) \<and> due \<le> clock s
        \<and> submits p s' = filter (\<lambda>x. fst x \<noteq> h) (submits p s)
        \<and> sent s' = sent (runCallback cb s) \<and> clock s' = clock s)"

text \<open>
  For the hook of one card: its armed 300 ms callbacks, and the invariant that at most one
  call is awaited, that \<open>isVoting\<close> is true and no 300 ms callback armed while one is,
  and that an armed 300 ms callback is the only one and is registered for the card's post.
\<close>

fun is_submit :: "callback \<Rightarrow> bool" where
  "is_submit (SubmitVote u q k) = True"
| "is_submit (SubmitRemove u q) = True"
| "is_submit (ClearOptimistic q) = False"

definition subs :: "vote_hook \<Rightarrow> (nat \<times> nat \<times> callback) list" where
  "subs s = filter (\<lambda>x. is_submit (snd (snd x))) (timers s)"

definition serial :: "post_id \<Rightarrow> vote_hook \<Rightarrow> bool" where
  "serial pid s \<longleftrightarrow>
     length (inflight s) \<le> 1
     \<and> (inflight s \<noteq> [] \<longrightarrow> isVoting s \<and> subs s = [])
     \<and> (subs s = [] \<or> (\<exists>x. subs s = [x] \<and> voteTimeouts s pid = Some (fst x)))"

text \<open>
  For the feed: the ids of a list of posts, the page a settling \<^verbatim>\<open>getPosts\<close> call returns,
  the post a realtime event delivers, and the states all of whose awaited loads are
  appending ones (\<^verbatim>\<open>loadPosts(page + 1, false)\<close>, as \<^verbatim>\<open>loadMore\<close> starts them).
\<close>

definition ids :: "post list \<Rightarrow> post_id list" where
  "ids ps = map post_id ps"

fun page_of :: "feed_event \<Rightarrow> post list" where
  "page_of (Settle c (Returned (Some ps) err)) = ps"
| "page_of e = []"

fun realtime_of :: "feed_event \<Rightarrow> post list" where
  "realtime_of (NewPost q) = [q]"
| "realtime_of e = []"

definition appending :: "posts_hook \<Rightarrow> bool" where
  "appending s = list_all (\<lambda>(c, pageNum, replace). pageNum \<noteq> 0 \<and> \<not> replace) (loads s)"

text \<open>A post with a given id, for concrete runs.\<close>

definition mkPost :: "post_id \<Rightarrow> post" where
  "mkPost i =
     \<lparr> post_id = i, created_by = ''a'', image_url = ''img'', person_name = None,
       description = None, is_active = True, created_at = ''t'', green_votes = Some 0,
       red_votes = Some 0, user_vote = None, profiles = None \<rparr>"

section \<open>Properties of the vote hook\<close>

subsection \<open>The fields after a tap\<close>

lemma vote_fields:
  assumes "userId s = Some u" and "u \<noteq> []"
  shows "userId (vote p k s) = userId s"
    and "isVoting (vote p k s) = isVoting s"
    and "optimisticVotes (vote p k s) = (optimisticVotes s)(p \<mapsto> Some k)"
    and "voteTimeouts (vote p k s) = (voteTimeouts s)(p \<mapsto> nextHandle s)"
    and "clock (vote p k s) = clock s"
    and "nextHandle (vote p k s) = Suc (nextHandle s)"
    and "timers (vote p k s) = (nextHandle s, clock s + 300, SubmitVote u p k) # cleared p s"
    and "nextCall (vote p k s) = nextCall s"
    and "inflight (vote p k s) = inflight s"
    and "sent (vote p k s) = sent s"
  using assms
  by (simp_all add: vote_def setTimeout_def clearTimeout_def cleared_def split: option.split)

lemma removeVote_fields:
  assumes "userId s = Some u" and "u \<noteq> []"
  shows "userId (removeVote p s) = userId s"
    and "isVoting (removeVote p s) = isVoting s"
    and "optimisticVotes (removeVote p s) = (optimisticVotes s)(p \<mapsto> None)"
    and "voteTimeouts (removeVote p s) = (voteTimeouts s)(p \<mapsto> nextHandle s)"
    and "clock (removeVote p s) = clock s"
    and "nextHandle (removeVote p s) = Suc (nextHandle s)"
    and "timers (removeVote p s) = (nextHandle s, clock s + 300, SubmitRemove u p) # cleared p s"
    and "nextCall (removeVote p s) = nextCall s"
    and "inflight (removeVote p s) = inflight s"
    and "sent (removeVote p s) = sent s"
  using assms
  by (simp_all add: removeVote_def setTimeout_def clearTimeout_def cleared_def split: option.split)

lemma vote_unauth: "\<not> truthy (userId s) \<Longrightarrow> vote p k s = s"
  by (cases "userId s") (simp_all add: vote_def)

lemma removeVote_unauth: "\<not> truthy (userId s) \<Longrightarrow> removeVote p s = s"
  by (cases "userId s") (simp_all add: removeVote_def)

lemma fire_armed:
  assumes "timers s = (h, due, cb) # rest" and "due \<le> clock s + n"
  shows "run [Tick n, Fire h] s
           = Some (runCallback cb (clearTimeout h (s\<lparr> clock := clock s + n \<rparr>)))"
  using assms by simp

lemma fire_early:
  assumes "timers s = (h, due, cb) # rest" and "clock s + n < due"
  shows "run [Tick n, Fire h] s = None"
  using assms by simp

subsection \<open>Debouncing\<close>

lemma handles_ok_useVote: "handles_ok (useVote uid)"
  by (simp add: handles_ok_def useVote_def)

lemma set_cleared: "set (cleared q s) \<subseteq> set (timers s)"
  by (auto simp: cleared_def split: option.splits)

lemma distinct_cleared: "distinct (map fst (timers s)) \<Longrightarrow> distinct (map fst (cleared q s))"
  by (auto simp: cleared_def distinct_map_filter split: option.splits)

lemma tapped_vote:
  assumes "userId s = Some u" and "u \<noteq> []"
  shows "tapped (SubmitVote u q k) q s (vote q k s)"
  unfolding tapped_def using vote_fields [OF assms, of q k] by simp

lemma tapped_removeVote:
  assumes "userId s = Some u" and "u \<noteq> []"
  shows "tapped (SubmitRemove u q) q s (removeVote q s)"
  unfolding tapped_def using removeVote_fields [OF assms, of q] by simp

lemma handles_ok_tapped:
  assumes "handles_ok s" and "tapped cb q s s'" and "submits_for q cb"
  shows "handles_ok s'"
proof -
  have t: "timers s' = (nextHandle s, clock s + 300, cb) # cleared q s"
    and v: "voteTimeouts s' = (voteTimeouts s)(q \<mapsto> nextHandle s)"
    and n: "nextHandle s' = Suc (nextHandle s)"
    using assms(2) by (simp_all add: tapped_def)
  have old1: "\<forall>x\<in>set (cleared q s). x \<in> set (timers s)"
    using set_cleared [of q s] by blast
  have old2: "\<forall>x\<in>set (cleared q s). fst x < nextHandle s"
    using old1 assms(1) unfolding handles_ok_def by blast
  have "nextHandle s \<notin> fst ` set (cleared q s)"
    using old2 by fastforce
  then have d: "distinct (map fst (timers s'))"
    using distinct_cleared [of s q] assms(1) by (simp add: t handles_ok_def)
  have b: "\<forall>x\<in>set (timers s'). fst x < nextHandle s'"
    using old2 by (simp add: t n less_SucI)
  have r: "\<forall>q' h. voteTimeouts s' q' = Some h \<longrightarrow> h < nextHandle s'"
    using assms(1) by (auto simp: v n handles_ok_def less_Suc_eq)
  have w: "\<forall>x\<in>set (timers s'). \<forall>q'. voteTimeouts s' q' = Some (fst x) \<longrightarrow> submits_for q' (snd (snd x))"
  proof (intro ballI allI impI)
    fix x q'
    assume x: "x \<in> set (timers s')" and reg: "voteTimeouts s' q' = Some (fst x)"
    show "submits_for q' (snd (snd x))"
    proof (cases "x = (nextHandle s, clock s + 300, cb)")
      case True
      then have "q' = q"
        using reg assms(1) by (auto simp: v handles_ok_def split: if_splits)
      then show ?thesis using True assms(3) by simp
    next
      case False
      then have xc: "x \<in> set (cleared q s)" using x by (simp add: t)
      then have xo: "x \<in> set (timers s)" "fst x < nextHandle s" using old1 old2 by auto
      then have "q' \<noteq> q" using reg by (auto simp: v)
      then have "voteTimeouts s q' = Some (fst x)" using reg by (simp add: v)
      then show ?thesis using assms(1) xo(1) by (auto simp: handles_ok_def)
    qed
  qed
  show ?thesis unfolding handles_ok_def using d b r w by blast
qed

lemma handles_ok_step:
  assumes "handles_ok s" and "step e s = Some s'"
  shows "handles_ok s'"
proof (cases e)
  case (CallVote q k)
  show ?thesis
  proof (cases "truthy (userId s)")
    case True
    then obtain u where u: "userId s = Some u" "u \<noteq> []" by (cases "userId s") auto
    from tapped_vote [OF u, of q k] show ?thesis
      using assms CallVote handles_ok_tapped [of s "SubmitVote u q k" q s'] by simp
  next
    case False
    then show ?thesis using assms CallVote by (simp add: vote_unauth)
  qed
next
  case (CallRemoveVote q)
  show ?thesis
  proof (cases "truthy (userId s)")
    case True
    then obtain u where u: "userId s = Some u" "u \<noteq> []" by (cases "userId s") auto
    from tapped_removeVote [OF u, of q] show ?thesis
      using assms CallRemoveVote handles_ok_tapped [of s "SubmitRemove u q" q s'] by simp
  next
    case False
    then show ?thesis using assms CallRemoveVote by (simp add: removeVote_unauth)
  qed
next
  case (Tick n)
  then have s': "s' = s\<lparr> clock := clock s + n \<rparr>" using assms(2) by simp
  show ?thesis using assms(1) unfolding s' handles_ok_def by simp
next
  case (Fire h)
  then obtain cb where s': "s' = runCallback cb (clearTimeout h s)"
    using assms(2) by (auto split: option.splits if_splits)
  have "handles_ok (clearTimeout h s)"
    using assms(1) by (auto simp: handles_ok_def clearTimeout_def distinct_map_filter)
  then show ?thesis
    unfolding s' by (cases cb) (auto simp: handles_ok_def issue_def)
next
  case (Resolve c out)
  then obtain r where s': "s' = afterAwait (request_post r) out (s\<lparr> inflight := filter (\<lambda>x. fst x \<noteq> c) (inflight s) \<rparr>)"
    using assms(2) by (auto split: option.splits)
  show ?thesis
    unfolding s' using assms(1)
    by (cases out) (auto simp: handles_ok_def afterAwait_def setTimeout_def less_Suc_eq)
qed

lemma submits_for_unique: "submits_for p cb \<Longrightarrow> submits_for q cb \<Longrightarrow> p = q"
  by (cases cb) auto

lemma handle_determines:
  assumes "distinct (map fst xs)" and "x \<in> set xs" and "y \<in> set xs" and "fst x = fst y"
  shows "x = y"
  using assms by (meson distinct_map inj_onD)

lemma submits_clearTimeout:
  "submits p (clearTimeout h s) = filter (\<lambda>x. fst x \<noteq> h) (submits p s)"
  by (simp add: submits_def clearTimeout_def conj_commute)

lemma submits_keep_other:
  assumes "handles_ok s" and "(h, due, cb) \<in> set (timers s)" and "\<not> submits_for p cb"
  shows "filter (\<lambda>x. fst x \<noteq> h) (submits p s) = submits p s"
proof -
  have "fst x \<noteq> h" if x: "x \<in> set (submits p s)" for x
  proof
    assume "fst x = h"
    moreover have "x \<in> set (timers s)" "submits_for p (snd (snd x))"
      using x by (simp_all add: submits_def)
    moreover have "distinct (map fst (timers s))"
      using assms(1) by (simp add: handles_ok_def)
    ultimately have "x = (h, due, cb)"
      using assms(2) handle_determines [of "timers s" x "(h, due, cb)"] by simp
    then show False
      using \<open>submits_for p (snd (snd x))\<close> assms(3) by simp
  qed
  then show ?thesis by (simp add: filter_id_conv)
qed

lemma submits_cleared_other:
  assumes "handles_ok s" and "q \<noteq> p"
  shows "filter (\<lambda>x. submits_for p (snd (snd x))) (cleared q s) = submits p s"
proof (cases "voteTimeouts s q")
  case None
  then show ?thesis by (simp add: cleared_def submits_def)
next
  case (Some h)
  have "fst x \<noteq> h" if x: "x \<in> set (timers s)" and px: "submits_for p (snd (snd x))" for x
  proof
    assume "fst x = h"
    then have "submits_for q (snd (snd x))"
      using assms(1) x Some unfolding handles_ok_def by blast
    then show False
      using px assms(2) submits_for_unique by blast
  qed
  then have "filter (\<lambda>x. submits_for p (snd (snd x))) (filter (\<lambda>x. fst x \<noteq> h) (timers s))
               = filter (\<lambda>x. submits_for p (snd (snd x))) (timers s)"
    by (simp add: conj_commute cong: filter_cong) (metis (mono_tags, lifting) filter_cong)
  then show ?thesis using Some by (simp add: cleared_def submits_def)
qed

lemma tapped_other:
  assumes "handles_ok s" and "tapped cb q s s'" and "submits_for q cb" and "q \<noteq> p"
  shows "submits p s' = submits p s \<and> awaited p s' = awaited p s \<and> sent s' = sent s
         \<and> voteTimeouts s' p = voteTimeouts s p \<and> clock s' = clock s"
proof -
  have "\<not> submits_for p cb"
    using assms(3,4) submits_for_unique by blast
  then have "submits p s' = submits p s"
    using assms(2) submits_cleared_other [OF assms(1,4)] by (simp add: tapped_def submits_def)
  then show ?thesis
    using assms(2,4) by (simp add: tapped_def awaited_def)
qed

lemma runCallback_frame:
  "timers (runCallback cb s) = timers s"
  "voteTimeouts (runCallback cb s) = voteTimeouts s"
  "clock (runCallback cb s) = clock s"
  by (cases cb; simp add: issue_def)+

lemma submits_runCallback: "submits p (runCallback cb s) = submits p s"
  by (simp add: submits_def runCallback_frame)

lemma runCallback_other:
  assumes "\<not> submits_for p cb"
  shows "(\<exists>rs. sent (runCallback cb s) = sent s @ rs \<and> calls p rs = [])
         \<and> awaited p (runCallback cb s) = awaited p s"
  using assms by (cases cb) (simp_all add: issue_def calls_def awaited_def)

lemma runCallback_submit:
  "sent (runCallback (intent_callback u p i) s) = sent s @ [intent_request u p i]"
  by (cases i) (simp_all add: issue_def)

lemma afterAwait_frame:
  "submits p (afterAwait q out s) = submits p s"
  "sent (afterAwait q out s) = sent s"
  "clock (afterAwait q out s) = clock s"
  "inflight (afterAwait q out s) = inflight s"
  "voteTimeouts (afterAwait q out s) p = (if q = p then None else voteTimeouts s p)"
  by (cases out; simp add: afterAwait_def setTimeout_def submits_def)+

lemma passes_refl: "passes p s s"
  by (simp add: passes_def calls_def)

lemma other_step:
  assumes "handles_ok s" and "step e s = Some s'" and "tap_intent p e = None"
  shows "passes p s s' \<or> fires p s s'"
proof (cases e)
  case (CallVote q k)
  then have qp: "q \<noteq> p" using assms(3) by (simp split: if_splits)
  show ?thesis
  proof (cases "truthy (userId s)")
    case True
    then obtain u where u: "userId s = Some u" "u \<noteq> []" by (cases "userId s") auto
    have "tapped (SubmitVote u q k) q s s'"
      using tapped_vote [OF u, of q k] assms(2) CallVote by simp
    from tapped_other [OF assms(1) this _ qp] show ?thesis
      by (simp add: passes_def calls_def)
  next
    case False
    then show ?thesis using assms(2) CallVote passes_refl by (simp add: vote_unauth)
  qed
next
  case (CallRemoveVote q)
  then have qp: "q \<noteq> p" using assms(3) by (simp split: if_splits)
  show ?thesis
  proof (cases "truthy (userId s)")
    case True
    then obtain u where u: "userId s = Some u" "u \<noteq> []" by (cases "userId s") auto
    have "tapped (SubmitRemove u q) q s s'"
      using tapped_removeVote [OF u, of q] assms(2) CallRemoveVote by simp
    from tapped_other [OF assms(1) this _ qp] show ?thesis
      by (simp add: passes_def calls_def)
  next
    case False
    then show ?thesis using assms(2) CallRemoveVote passes_refl by (simp add: removeVote_unauth)
  qed
next
  case (Tick n)
  then have s': "s' = s\<lparr> clock := clock s + n \<rparr>" using assms(2) by simp
  show ?thesis unfolding s' by (simp add: passes_def submits_def awaited_def calls_def)
next
  case (Fire h)
  then obtain due cb where m: "map_of (timers s) h = Some (due, cb)" and d: "due \<le> clock s"
    and s': "s' = runCallback cb (clearTimeout h s)"
    using assms(2) by (auto split: option.splits if_splits)
  from m have mem: "(h, due, cb) \<in> set (timers s)" by (rule map_of_SomeD)
  have sub: "submits p s' = filter (\<lambda>x. fst x \<noteq> h) (submits p s)"
    by (simp add: s' submits_runCallback submits_clearTimeout)
  have clk: "clock s' = clock s"
    by (simp add: s' runCallback_frame clearTimeout_def)
  have snt: "sent s' = sent (runCallback cb s)"
    by (cases cb) (simp_all add: s' issue_def clearTimeout_def)
  show ?thesis
  proof (cases "submits_for p cb")
    case True
    then have "(h, due, cb) \<in> set (submits p s)" using mem by (simp add: submits_def)
    then have "fires p s s'"
      unfolding fires_def using d sub snt clk by blast
    then show ?thesis ..
  next
    case False
    have "submits p s' = submits p s"
      using sub submits_keep_other [OF assms(1) mem False] by simp
    moreover have "\<exists>rs. sent s' = sent s @ rs \<and> calls p rs = []"
      using runCallback_other [OF False, of s] snt by simp
    moreover have "awaited p s' = awaited p s"
      using runCallback_other [OF False, of "clearTimeout h s"]
      by (simp add: s' awaited_def clearTimeout_def)
    moreover have "voteTimeouts s' p = voteTimeouts s p"
      by (simp add: s' runCallback_frame clearTimeout_def)
    ultimately have "passes p s s'"
      unfolding passes_def using clk by simp
    then show ?thesis ..
  qed
next
  case (Resolve c out)
  let ?t = "s\<lparr> inflight := filter (\<lambda>x. fst x \<noteq> c) (inflight s) \<rparr>"
  from Resolve obtain r where m: "map_of (inflight s) c = Some r"
    and s': "s' = afterAwait (request_post r) out ?t"
    using assms(2) by (auto split: option.splits)
  from m have mem: "(c, r) \<in> set (inflight s)" by (rule map_of_SomeD)
  have "submits p s' = submits p ?t"
    by (simp add: s' afterAwait_frame)
  then have "submits p s' = submits p s"
    by (simp add: submits_def)
  moreover have "sent s' = sent s" "clock s' = clock s"
    by (simp_all add: s' afterAwait_frame)
  moreover have "awaited p s' = [] \<and> voteTimeouts s' p = voteTimeouts s p" if a: "awaited p s = []"
  proof -
    have "request_post r \<noteq> p"
      using a mem by (auto simp: awaited_def filter_empty_conv)
    moreover have "awaited p s' = filter (\<lambda>x. fst x \<noteq> c) (awaited p s)"
      by (simp add: s' awaited_def afterAwait_frame conj_commute)
    ultimately show ?thesis using a by (simp add: s' afterAwait_frame)
  qed
  ultimately have "passes p s s'"
    unfolding passes_def by (simp add: calls_def)
  then show ?thesis ..
qed

lemma idle_other:
  assumes "idle p base s" and "passes p s s' \<or> fires p s s'"
  shows "idle p base s'"
proof -
  have "\<not> fires p s s'"
    using assms(1) by (simp add: fires_def idle_def)
  then have ps: "passes p s s'" using assms(2) by blast
  from assms(1) obtain new where n: "sent s = base @ new" "calls p new = []"
    unfolding idle_def by blast
  from ps obtain rs where r: "sent s' = sent s @ rs" "calls p rs = []"
    unfolding passes_def by blast
  have "sent s' = base @ (new @ rs)" "calls p (new @ rs) = []"
    using n r by (simp_all add: calls_def)
  then have "\<exists>new. sent s' = base @ new \<and> calls p new = []" by blast
  then show ?thesis
    using assms(1) ps unfolding idle_def passes_def by simp
qed

lemma submitted_other:
  assumes "submitted p base t r s" and "passes p s s' \<or> fires p s s'"
  shows "submitted p base t r s'"
proof -
  have "\<not> fires p s s'"
    using assms(1) by (simp add: fires_def submitted_def)
  then have ps: "passes p s s'" using assms(2) by blast
  from assms(1) obtain new where n: "sent s = base @ new" "calls p new = [r]"
    unfolding submitted_def by blast
  from ps obtain rs where r: "sent s' = sent s @ rs" "calls p rs = []"
    unfolding passes_def by blast
  have "sent s' = base @ (new @ rs)" "calls p (new @ rs) = [r]"
    using n r by (simp_all add: calls_def)
  then have "\<exists>new. sent s' = base @ new \<and> calls p new = [r]" by blast
  then show ?thesis
    using assms(1) ps unfolding submitted_def passes_def by simp
qed

lemma armed_other:
  assumes "armed p base t (intent_callback u p i) s" and "passes p s s' \<or> fires p s s'"
  shows "armed p base t (intent_callback u p i) s' \<or> submitted p base t (intent_request u p i) s'"
proof -
  from assms(1) obtain new h where n: "sent s = base @ new" "calls p new = []"
    and h: "submits p s = [(h, t + 300, intent_callback u p i)]" "voteTimeouts s p = Some h"
    and a: "awaited p s = []" "t \<le> clock s"
    unfolding armed_def by blast
  from assms(2) show ?thesis
  proof
    assume ps: "passes p s s'"
    then obtain rs where r: "sent s' = sent s @ rs" "calls p rs = []"
      unfolding passes_def by blast
    have "sent s' = base @ (new @ rs)" "calls p (new @ rs) = []"
      using n r by (simp_all add: calls_def)
    then have "\<exists>new. sent s' = base @ new \<and> calls p new = []" by blast
    then have "armed p base t (intent_callback u p i) s'"
      using h a ps unfolding armed_def passes_def by simp
    then show ?thesis ..
  next
    assume "fires p s s'"
    then obtain h' due cb where f: "(h', due, cb) \<in> set (submits p s)" "due \<le> clock s"
      "submits p s' = filter (\<lambda>x. fst x \<noteq> h') (submits p s)"
      "sent s' = sent (runCallback cb s)" "clock s' = clock s"
      unfolding fires_def by blast
    from f(1) have e: "h' = h" "due = t + 300" "cb = intent_callback u p i"
      by (simp_all add: h(1))
    have "sent s' = base @ (new @ [intent_request u p i])"
      using f(4) n(1) by (simp add: e runCallback_submit)
    moreover have "calls p (new @ [intent_request u p i]) = [intent_request u p i]"
      using n(2) by (cases i) (simp_all add: calls_def)
    ultimately have "\<exists>new. sent s' = base @ new \<and> calls p new = [intent_request u p i]"
      by blast
    moreover have "submits p s' = []"
      using f(3) by (simp add: h(1) e)
    moreover have "t + 300 \<le> clock s'"
      using f(2,5) e by simp
    ultimately have "submitted p base t (intent_request u p i) s'"
      unfolding submitted_def by simp
    then show ?thesis ..
  qed
qed

lemma tap_arms:
  assumes "idle p base s \<or> armed p base t cb s" and "tapped cb' p s s'" and "submits_for p cb'"
  shows "armed p base (clock s) cb' s'"
proof -
  have sent: "\<exists>new. sent s = base @ new \<and> calls p new = []" and aw: "awaited p s = []"
    using assms(1) unfolding idle_def armed_def by blast+
  have "filter (\<lambda>x. submits_for p (snd (snd x))) (cleared p s) = []"
    using assms(1)
  proof
    assume "idle p base s"
    then have "submits p s = []" by (simp add: idle_def)
    then have "\<forall>x\<in>set (timers s). \<not> submits_for p (snd (snd x))"
      by (simp add: submits_def filter_empty_conv)
    then show ?thesis
      using set_cleared [of p s] by (auto simp: filter_empty_conv)
  next
    assume "armed p base t cb s"
    then obtain h where h: "submits p s = [(h, t + 300, cb)]" "voteTimeouts s p = Some h"
      unfolding armed_def by blast
    have "filter (\<lambda>x. submits_for p (snd (snd x))) (cleared p s)
            = filter (\<lambda>x. fst x \<noteq> h) (submits p s)"
      using h(2) by (simp add: cleared_def submits_def conj_commute)
    then show ?thesis by (simp add: h(1))
  qed
  then have "submits p s' = [(nextHandle s, clock s + 300, cb')]"
    using assms(2,3) by (simp add: tapped_def submits_def)
  moreover have "voteTimeouts s' p = Some (nextHandle s)" "sent s' = sent s"
    "awaited p s' = awaited p s" "clock s' = clock s"
    using assms(2) by (simp_all add: tapped_def awaited_def)
  ultimately show ?thesis
    using sent aw unfolding armed_def by simp
qed

lemma vote_keeps: "userId (vote q k s) = userId s \<and> clock (vote q k s) = clock s"
proof (cases "truthy (userId s)")
  case True
  then obtain u where u: "userId s = Some u" "u \<noteq> []" by (cases "userId s") auto
  show ?thesis using vote_fields(1,5) [OF u, of q k] by simp
next
  case False
  then show ?thesis by (simp add: vote_unauth)
qed

lemma removeVote_keeps: "userId (removeVote q s) = userId s \<and> clock (removeVote q s) = clock s"
proof (cases "truthy (userId s)")
  case True
  then obtain u where u: "userId s = Some u" "u \<noteq> []" by (cases "userId s") auto
  show ?thesis using removeVote_fields(1,5) [OF u, of q] by simp
next
  case False
  then show ?thesis by (simp add: removeVote_unauth)
qed

lemma userId_step:
  assumes "step e s = Some s'"
  shows "userId s' = userId s"
proof (cases e)
  case (CallVote q k)
  then show ?thesis using assms vote_keeps [of q k s] by auto
next
  case (CallRemoveVote q)
  then show ?thesis using assms removeVote_keeps [of q s] by auto
next
  case (Tick n)
  then show ?thesis using assms by auto
next
  case (Fire h)
  then obtain cb where "s' = runCallback cb (clearTimeout h s)"
    using assms by (auto split: option.splits if_splits)
  then show ?thesis by (cases cb) (simp_all add: issue_def clearTimeout_def)
next
  case (Resolve c out)
  then obtain r where "s' = afterAwait (request_post r) out (s\<lparr> inflight := filter (\<lambda>x. fst x \<noteq> c) (inflight s) \<rparr>)"
    using assms by (auto split: option.splits)
  then show ?thesis by (cases out) (simp_all add: afterAwait_def setTimeout_def)
qed

lemma clock_other:
  assumes "step e s = Some s'" and "tap_intent p e = None"
  shows "clock s' = clock s + elapsed e"
proof (cases e)
  case (CallVote q k)
  then show ?thesis using assms vote_keeps [of q k s] by auto
next
  case (CallRemoveVote q)
  then show ?thesis using assms removeVote_keeps [of q s] by auto
next
  case (Tick n)
  then show ?thesis using assms by auto
next
  case (Fire h)
  then obtain cb where "s' = runCallback cb (clearTimeout h s)"
    using assms by (auto split: option.splits if_splits)
  then show ?thesis using Fire by (simp add: runCallback_frame clearTimeout_def)
next
  case (Resolve c out)
  then obtain r where "s' = afterAwait (request_post r) out (s\<lparr> inflight := filter (\<lambda>x. fst x \<noteq> c) (inflight s) \<rparr>)"
    using assms by (auto split: option.splits)
  then show ?thesis using Resolve by (simp add: afterAwait_frame)
qed

lemma tap_step:
  assumes "tap_intent p e = Some i" and "userId s = Some u" and "u \<noteq> []"
    and "step e s = Some s'"
  shows "tapped (intent_callback u p i) p s s'"
proof (cases e)
  case (CallVote q k)
  then have "q = p" "i = Some k" using assms(1) by (auto split: if_splits)
  then show ?thesis using tapped_vote [OF assms(2,3), of p k] assms(4) CallVote by simp
next
  case (CallRemoveVote q)
  then have "q = p" "i = None" using assms(1) by (auto split: if_splits)
  then show ?thesis using tapped_removeVote [OF assms(2,3), of p] assms(4) CallRemoveVote by simp
qed (use assms(1) in simp_all)

lemma submits_for_intent: "submits_for p (intent_callback u p i)"
  by (cases i) simp_all

lemma shape_other:
  assumes "shape p u base prev s" and "passes p s s' \<or> fires p s s'"
  shows "shape p u base prev s'"
proof (cases prev)
  case None
  then show ?thesis using assms idle_other by (simp add: shape_def)
next
  case (Some ti)
  obtain t i where ti: "ti = (t, i)" by (cases ti)
  from assms(1) have "armed p base t (intent_callback u p i) s
      \<or> submitted p base t (intent_request u p i) s"
    by (simp add: shape_def Some ti)
  then have "armed p base t (intent_callback u p i) s'
      \<or> submitted p base t (intent_request u p i) s'"
    using armed_other [OF _ assms(2)] submitted_other [OF _ assms(2)] by blast
  then show ?thesis by (simp add: shape_def Some ti)
qed

lemma shape_tap:
  assumes "shape p u base prev s" and "tapped (intent_callback u p i) p s s'"
    and "case prev of None \<Rightarrow> True | Some ti \<Rightarrow> clock s < fst ti + 300"
  shows "shape p u base (Some (clock s, i)) s'"
proof -
  have "idle p base s \<or> (\<exists>t cb. armed p base t cb s)"
  proof (cases prev)
    case None
    then show ?thesis using assms(1) by (simp add: shape_def)
  next
    case (Some ti)
    obtain t j where ti: "ti = (t, j)" by (cases ti)
    have "\<not> submitted p base t (intent_request u p j) s"
      using assms(3) by (simp add: Some ti submitted_def)
    then show ?thesis using assms(1) by (auto simp: shape_def Some ti)
  qed
  then have "armed p base (clock s) (intent_callback u p i) s'"
    using tap_arms [OF _ assms(2) submits_for_intent] by blast
  then show ?thesis by (simp add: shape_def)
qed

lemma run_shape:
  assumes "handles_ok s" and "userId s = Some u" and "u \<noteq> []"
    and "shape p u base prev s" and "run evs s = Some s'"
    and "well_spaced p (map_option fst prev) (clock s) evs"
  shows "shape p u base (track p prev (clock s) evs) s'"
  using assms
proof (induction evs arbitrary: s prev)
  case Nil
  then show ?case by simp
next
  case (Cons e evs)
  from Cons.prems(5) obtain s1 where s1: "step e s = Some s1" "run evs s1 = Some s'"
    by (auto split: option.splits)
  have w1: "handles_ok s1" using handles_ok_step [OF Cons.prems(1) s1(1)] .
  have u1: "userId s1 = Some u" using userId_step [OF s1(1)] Cons.prems(2) by simp
  show ?case
  proof (cases "tap_intent p e")
    case None
    have c1: "clock s1 = clock s + elapsed e" using clock_other [OF s1(1) None] .
    have sh: "shape p u base prev s1"
      using shape_other [OF Cons.prems(4) other_step [OF Cons.prems(1) s1(1) None]] .
    have ws: "well_spaced p (map_option fst prev) (clock s1) evs"
      using Cons.prems(6) None by (simp add: c1)
    from Cons.IH [OF w1 u1 Cons.prems(3) sh s1(2) ws] show ?thesis
      using None by (simp add: c1)
  next
    case (Some i)
    have tp: "tapped (intent_callback u p i) p s s1"
      using tap_step [OF Some Cons.prems(2,3) s1(1)] .
    then have c1: "clock s1 = clock s" by (simp add: tapped_def)
    have gap: "case prev of None \<Rightarrow> True | Some ti \<Rightarrow> clock s < fst ti + 300"
      using Cons.prems(6) Some by (cases prev) simp_all
    have sh: "shape p u base (Some (clock s, i)) s1"
      using shape_tap [OF Cons.prems(4) tp gap] .
    have ws: "well_spaced p (map_option fst (Some (clock s, i))) (clock s1) evs"
      using Cons.prems(6) Some by (simp add: c1)
    from Cons.IH [OF w1 u1 Cons.prems(3) sh s1(2) ws] show ?thesis
      using Some by (simp add: c1)
  qed
qed

lemma run_handles_ok:
  assumes "handles_ok s" and "run evs s = Some s'"
  shows "handles_ok s'"
  using assms
  by (induction evs arbitrary: s) (auto split: option.splits intro: handles_ok_step)

lemma run_userId:
  assumes "run evs s = Some s'"
  shows "userId s' = userId s"
  using assms
  by (induction evs arbitrary: s) (auto split: option.splits dest: userId_step)

lemma track_taps:
  "map_option snd (track p prev now evs)
     = (if taps p evs = [] then map_option snd prev else Some (last (taps p evs)))"
proof (induction evs arbitrary: prev now)
  case Nil
  then show ?case by (simp add: taps_def)
next
  case (Cons e evs)
  show ?case
  proof (cases "tap_intent p e")
    case None
    then show ?thesis using Cons.IH [of prev "now + elapsed e"]
      by (simp add: taps_def)
  next
    case (Some i)
    then show ?thesis using Cons.IH [of "Some (now, i)" now]
      by (simp add: taps_def)
  qed
qed

text \<open>
  When the burst starts with nothing pending for the post, the debounce works. Take any
  state \<open>s0\<close> the hook of a signed-in user can reach in which no 300 ms callback of post
  \<open>p\<close> is armed and no call for \<open>p\<close> is awaited, and any trace from it (taps on any
  post, time passing, timers firing, calls settling, in any order) in which every tap on
  \<open>p\<close> comes less than 300 ms after the previous tap on \<open>p\<close>. Then the calls for \<open>p\<close>
  that the trace adds to the log are none or exactly one, and that one is the call of the
  last tap on \<open>p\<close>: \<^verbatim>\<open>voteOnPost\<close> with its kind, or \<^verbatim>\<open>removeVote\<close>. As long as none was
  sent after a tap, exactly one callback of \<open>p\<close> is armed, it is the last tap's, and it
  is due 300 ms after that tap.
\<close>

lemma debounce_sends_last_tap:
  assumes "run evs0 (useVote (Some u)) = Some s0" and "u \<noteq> []"
    and "submits p s0 = []" and "awaited p s0 = []"
    and "run evs s0 = Some s"
    and "well_spaced p None (clock s0) evs"
  shows "\<exists>new. sent s = sent s0 @ new
           \<and> (calls p new = []
                \<or> taps p evs \<noteq> [] \<and> calls p new = [intent_request u p (last (taps p evs))])
           \<and> (taps p evs \<noteq> [] \<and> calls p new = [] \<longrightarrow>
                (\<exists>h t. t \<le> clock s \<and> voteTimeouts s p = Some h
                   \<and> submits p s = [(h, t + 300, intent_callback u p (last (taps p evs)))]))"
proof -
  have w: "handles_ok s0" using run_handles_ok [OF handles_ok_useVote assms(1)] .
  have uid: "userId s0 = Some u" using run_userId [OF assms(1)] by (simp add: useVote_def)
  have "idle p (sent s0) s0"
    using assms(3,4) by (simp add: idle_def calls_def)
  then have sh0: "shape p u (sent s0) None s0" by (simp add: shape_def)
  have ws: "well_spaced p (map_option fst None) (clock s0) evs" using assms(6) by simp
  note sh = run_shape [OF w uid assms(2) sh0 assms(5) ws]
  show ?thesis
  proof (cases "track p None (clock s0) evs")
    case None
    then have "idle p (sent s0) s" using sh by (simp add: shape_def)
    moreover have "taps p evs = []"
      using track_taps [of p None "clock s0" evs] None by (simp split: if_splits)
    ultimately show ?thesis unfolding idle_def by auto
  next
    case (Some ti)
    obtain t i where ti: "ti = (t, i)" by (cases ti)
    have tl: "taps p evs \<noteq> []" "last (taps p evs) = i"
      using track_taps [of p None "clock s0" evs] Some ti by (simp_all split: if_splits)
    from sh have "armed p (sent s0) t (intent_callback u p i) s
        \<or> submitted p (sent s0) t (intent_request u p i) s"
      by (simp add: shape_def Some ti)
    then show ?thesis
    proof
      assume "armed p (sent s0) t (intent_callback u p i) s"
      then obtain new h where "sent s = sent s0 @ new" "calls p new = []"
        "submits p s = [(h, t + 300, intent_callback u p i)]" "voteTimeouts s p = Some h"
        "t \<le> clock s"
        unfolding armed_def by blast
      then show ?thesis using tl by blast
    next
      assume "submitted p (sent s0) t (intent_request u p i) s"
      then obtain new where "sent s = sent s0 @ new" "calls p new = [intent_request u p i]"
        unfolding submitted_def by blast
      then show ?thesis using tl by auto
    qed
  qed
qed


lemma debounce_sends_last_tap_example:
  "run [] (useVote (Some ''u'')) = Some (useVote (Some ''u'')) \<and> ''u'' \<noteq> []
   \<and> submits ''p'' (useVote (Some ''u'')) = [] \<and> awaited ''p'' (useVote (Some ''u'')) = []
   \<and> well_spaced ''p'' None (clock (useVote (Some ''u'')))
        [CallVote ''p'' Green, Tick 100, CallRemoveVote ''p'', Tick 299, CallVote ''p'' Red,
         Tick 300, Fire 3]
   \<and> map_option sent
        (run [CallVote ''p'' Green, Tick 100, CallRemoveVote ''p'', Tick 299, CallVote ''p'' Red,
              Tick 300, Fire 3] (useVote (Some ''u'')))
       = Some [VoteOnPost ''u'' ''p'' Red]
   \<and> taps ''p''
        [CallVote ''p'' Green, Tick 100, CallRemoveVote ''p'', Tick 299, CallVote ''p'' Red,
         Tick 300, Fire 3] = [Some Green, None, Some Red]
   \<and> map_option (submits ''p'')
        (run [CallVote ''p'' Green, Tick 100, CallRemoveVote ''p''] (useVote (Some ''u'')))
       = Some [(2, 400, SubmitRemove ''u'' ''p'')]"
proof -
  let ?init = "useVote (Some ''u'')"
  let ?evs = "[CallVote ''p'' Green, Tick 100, CallRemoveVote ''p'', Tick 299,
               CallVote ''p'' Red, Tick 300, Fire 3]"
  let ?fin = "\<lparr> userId = Some ''u'', isVoting = True, optimisticVotes = [''p'' \<mapsto> Some Red],
       voteTimeouts = [''p'' \<mapsto> 3], clock = 699, nextHandle = 4, timers = [],
       nextCall = 2, inflight = [(1, VoteOnPost ''u'' ''p'' Red)],
       sent = [VoteOnPost ''u'' ''p'' Red] \<rparr>"
  have r0: "run [] ?init = Some ?init" by simp
  have u: "''u'' \<noteq> []" by simp
  have q1: "submits ''p'' ?init = []" by (simp add: submits_def useVote_def)
  have q2: "awaited ''p'' ?init = []" by (simp add: awaited_def useVote_def)
  have c0: "clock ?init = 0" by (simp add: useVote_def)
  have ws: "well_spaced ''p'' None (clock ?init) ?evs" by (simp add: c0)
  have r: "run ?evs ?init = Some ?fin"
    by (simp add: useVote_def vote_def removeVote_def setTimeout_def clearTimeout_def issue_def
        numeral_3_eq_3)
  have t: "taps ''p'' ?evs = [Some Green, None, Some Red]"
    by (simp add: taps_def)
  have a: "map_option (submits ''p'')
             (run [CallVote ''p'' Green, Tick 100, CallRemoveVote ''p''] ?init)
           = Some [(2, 400, SubmitRemove ''u'' ''p'')]"
    by (simp add: useVote_def vote_def removeVote_def setTimeout_def clearTimeout_def submits_def)
  from debounce_sends_last_tap [OF r0 u q1 q2 r ws]
  show ?thesis using r0 q1 q2 ws r t a by (simp del: run.simps well_spaced.simps)
qed

text \<open>
  C1. The claim is for every sequence of taps on a post that are each less than 300 ms
  after the previous one; the hook breaks it when the sequence starts while a call for
  the post is awaited. \<^verbatim>\<open>vote\<close> and \<^verbatim>\<open>removeVote\<close> clear the timer registered for the post,
  but the \<^verbatim>\<open>finally\<close> block of the settling call deletes the post's entry of
  \<^verbatim>\<open>voteTimeouts\<close> whatever handle it holds, also the handle of a timer armed since. Below,
  green was tapped and its call is in flight (clock 1000). Then red is tapped, the green
  call settles, and 100 ms after the red tap the vote is removed: the sequence red,
  remove is well spaced, yet the red timer is no longer registered, the second tap does
  not clear it, and both \<^verbatim>\<open>voteOnPost\<close> red and \<^verbatim>\<open>removeVote\<close> are sent, the first of them
  not being the call of the last tap.
\<close>

theorem burst_during_flight_sends_twice:
  "map_option sent
     (run [CallVote ''p'' Green, Tick 300, Fire 1, Tick 700] (useVote (Some ''u'')))
   = Some [VoteOnPost ''u'' ''p'' Green]
   \<and> map_option inflight
       (run [CallVote ''p'' Green, Tick 300, Fire 1, Tick 700] (useVote (Some ''u'')))
     = Some [(1, VoteOnPost ''u'' ''p'' Green)]
   \<and> map_option clock
       (run [CallVote ''p'' Green, Tick 300, Fire 1, Tick 700] (useVote (Some ''u'')))
     = Some 1000
   \<and> well_spaced ''p'' None 1000
       [CallVote ''p'' Red, Resolve 1 Succeeded, Tick 100, CallRemoveVote ''p'', Tick 300,
        Fire 2, Fire 4]
   \<and> taps ''p''
       [CallVote ''p'' Red, Resolve 1 Succeeded, Tick 100, CallRemoveVote ''p'', Tick 300,
        Fire 2, Fire 4] = [Some Red, None]
   \<and> map_option sent
       (run [CallVote ''p'' Green, Tick 300, Fire 1, Tick 700,
             CallVote ''p'' Red, Resolve 1 Succeeded, Tick 100, CallRemoveVote ''p'', Tick 300,
             Fire 2, Fire 4] (useVote (Some ''u'')))
     = Some [VoteOnPost ''u'' ''p'' Green, VoteOnPost ''u'' ''p'' Red, RemoveVote ''u'' ''p'']"
  by (simp add: useVote_def vote_def removeVote_def setTimeout_def clearTimeout_def issue_def
      afterAwait_def taps_def)

subsection \<open>Calls in flight for one post\<close>

text \<open>
  C2, as the claim states it, fails for the hook: a call of \<^verbatim>\<open>vote\<close> made while a call for
  the same post is awaited arms its own timer, and when that fires the second call is
  issued although the first has not settled. Two calls for the post are then in flight.
\<close>

theorem two_calls_in_flight_counterexample:
  "map_option inflight
     (run [CallVote ''p'' Green, Tick 300, Fire 1, CallVote ''p'' Red, Tick 300, Fire 2]
        (useVote (Some ''u'')))
   = Some [(2, VoteOnPost ''u'' ''p'' Red), (1, VoteOnPost ''u'' ''p'' Green)]"
  by (simp add: useVote_def vote_def setTimeout_def clearTimeout_def issue_def)

text \<open>
  In the same way, without the card's gate, a tap made during a flight is not debounced
  with the taps after it: when the awaited call settles, its \<^verbatim>\<open>finally\<close> block deletes the
  entry of \<^verbatim>\<open>voteTimeouts\<close> that by then holds the handle of the newer timer, so the next
  tap cannot clear that timer. Below, red is tapped during the flight of green and the
  vote is removed 100 ms later; both the red vote and the removal are sent.
\<close>

lemma ungated_taps_both_sent:
  "map_option sent
     (run [CallVote ''p'' Green, Tick 300, Fire 1, CallVote ''p'' Red, Resolve 1 Succeeded,
           Tick 100, CallRemoveVote ''p'', Tick 300, Fire 2, Fire 4]
        (useVote (Some ''u'')))
   = Some [VoteOnPost ''u'' ''p'' Green, VoteOnPost ''u'' ''p'' Red, RemoveVote ''u'' ''p'']"
  by (simp add: useVote_def vote_def removeVote_def setTimeout_def clearTimeout_def issue_def
      afterAwait_def)

lemma serial_useVote: "serial pid (useVote uid)"
  by (simp add: serial_def subs_def useVote_def)

lemma subs_tapped:
  assumes "serial pid s" and "tapped cb pid s s'" and "is_submit cb"
  shows "subs s' = [(nextHandle s, clock s + 300, cb)]"
proof -
  have "filter (\<lambda>x. is_submit (snd (snd x))) (cleared pid s) = []"
  proof (cases "subs s = []")
    case True
    then have "\<forall>x\<in>set (timers s). \<not> is_submit (snd (snd x))"
      by (simp add: subs_def filter_empty_conv)
    then show ?thesis
      using set_cleared [of pid s] by (auto simp: filter_empty_conv)
  next
    case False
    then obtain x where x: "subs s = [x]" "voteTimeouts s pid = Some (fst x)"
      using assms(1) unfolding serial_def by blast
    have "filter (\<lambda>x. is_submit (snd (snd x))) (cleared pid s)
            = filter (\<lambda>y. fst y \<noteq> fst x) (subs s)"
      using x(2) by (simp add: cleared_def subs_def conj_commute)
    then show ?thesis by (simp add: x(1))
  qed
  then show ?thesis
    using assms(2,3) by (simp add: tapped_def subs_def)
qed

lemma serial_tapped:
  assumes "serial pid s" and "\<not> isVoting s" and "tapped cb pid s s'" and "is_submit cb"
  shows "serial pid s'"
proof -
  have "inflight s = []" using assms(1,2) unfolding serial_def by blast
  then have "inflight s' = []" using assms(3) by (simp add: tapped_def)
  moreover have "voteTimeouts s' pid = Some (nextHandle s)"
    using assms(3) by (simp add: tapped_def)
  ultimately show ?thesis
    unfolding serial_def using subs_tapped [OF assms(1,3,4)] by simp
qed

lemma serial_handleVote:
  assumes "serial pid s" and "\<not> isVoting s" and "post_id P = pid"
  shows "serial pid (handleVote P k s)"
proof (cases "truthy (userId s)")
  case False
  then show ?thesis using assms(1) by (simp add: handleVote_def)
next
  case True
  then obtain u where u: "userId s = Some u" "u \<noteq> []" by (cases "userId s") auto
  show ?thesis
  proof (cases "effectiveVote s P = Some k")
    case True
    then have "handleVote P k s = removeVote pid s"
      using u assms(3) by (simp add: handleVote_def)
    then show ?thesis
      using serial_tapped [OF assms(1,2) tapped_removeVote [OF u, of pid]] by simp
  next
    case False
    then have "handleVote P k s = vote pid k s"
      using u assms(3) by (simp add: handleVote_def)
    then show ?thesis
      using serial_tapped [OF assms(1,2) tapped_vote [OF u, of pid k]] by simp
  qed
qed

lemma serial_step:
  assumes "serial pid s" and "card_step pid e s = Some s'"
  shows "serial pid s'"
proof (cases e)
  case (Press P k)
  then have "post_id P = pid" "\<not> isVoting s" "s' = handleVote P k s"
    using assms(2) by (auto simp: pressVote_def split: if_splits)
  then show ?thesis using serial_handleVote [OF assms(1)] by simp
next
  case (Elapse n)
  then have "s' = s\<lparr> clock := clock s + n \<rparr>" using assms(2) by simp
  then show ?thesis using assms(1) by (simp add: serial_def subs_def)
next
  case (TimerFires h)
  then obtain due cb where m: "map_of (timers s) h = Some (due, cb)"
    and s': "s' = runCallback cb (clearTimeout h s)"
    using assms(2) by (auto split: option.splits if_splits)
  from m have mem: "(h, due, cb) \<in> set (timers s)" by (rule map_of_SomeD)
  have sub: "subs (clearTimeout h s) = filter (\<lambda>x. fst x \<noteq> h) (subs s)"
    by (simp add: subs_def clearTimeout_def conj_commute)
  show ?thesis
  proof (cases "is_submit cb")
    case True
    then have "(h, due, cb) \<in> set (subs s)" using mem by (simp add: subs_def)
    then have one: "subs s = [(h, due, cb)]" and none: "inflight s = []"
      using assms(1) unfolding serial_def by auto
    have "subs s' = subs (clearTimeout h s)"
      by (simp add: s' subs_def runCallback_frame)
    then have "subs s' = []"
      using sub one by simp
    moreover have "length (inflight s') = 1" "isVoting s'"
      using True none by (cases cb; simp add: s' issue_def clearTimeout_def)+
    ultimately show ?thesis unfolding serial_def by simp
  next
    case False
    then obtain q where cb: "cb = ClearOptimistic q" by (cases cb) auto
    have f: "inflight s' = inflight s" "isVoting s' = isVoting s" "voteTimeouts s' = voteTimeouts s"
      "subs s' = filter (\<lambda>x. fst x \<noteq> h) (subs s)"
      using sub by (simp_all add: s' cb clearTimeout_def subs_def)
    have a: "subs s' = [] \<or> (\<exists>x. subs s' = [x] \<and> voteTimeouts s' pid = Some (fst x))"
    proof (cases "subs s = []")
      case True
      then show ?thesis by (simp add: f)
    next
      case False
      then obtain x where x: "subs s = [x]" "voteTimeouts s pid = Some (fst x)"
        using assms(1) unfolding serial_def by blast
      show ?thesis by (cases "fst x = h") (simp_all add: f x)
    qed
    have b: "inflight s' \<noteq> [] \<longrightarrow> isVoting s' \<and> subs s' = []"
      using assms(1) unfolding serial_def by (simp add: f)
    have c: "length (inflight s') \<le> 1"
      using assms(1) unfolding serial_def by (simp add: f)
    show ?thesis unfolding serial_def using a b c by blast
  qed
next
  case (CallSettles c out)
  let ?t = "s\<lparr> inflight := filter (\<lambda>x. fst x \<noteq> c) (inflight s) \<rparr>"
  from CallSettles obtain r where m: "map_of (inflight s) c = Some r"
    and s': "s' = afterAwait (request_post r) out ?t"
    using assms(2) by (auto split: option.splits)
  from m have mem: "(c, r) \<in> set (inflight s)" by (rule map_of_SomeD)
  then have ne: "inflight s \<noteq> []" by auto
  then have "subs s = []" using assms(1) unfolding serial_def by blast
  then have "subs s' = []"
    by (cases out) (simp_all add: s' afterAwait_def setTimeout_def subs_def)
  moreover have "inflight s = [(c, r)]"
    using mem assms(1) unfolding serial_def by (cases "inflight s") auto
  then have "inflight s' = []"
    by (simp add: s' afterAwait_frame)
  ultimately show ?thesis unfolding serial_def by simp
qed

lemma serial_run:
  assumes "serial pid s" and "card_run pid evs s = Some s'"
  shows "serial pid s'"
  using assms
  by (induction evs arbitrary: s) (auto split: option.splits intro: serial_step)

text \<open>
  C2, amended. The hook does not queue taps; the card blocks them. In the hook of a card
  (one post, vote buttons disabled while \<open>isVoting\<close>), whatever presses, timers and
  settling calls happen in whatever order, at most one call is in flight at any time, and
  while one is in flight no press on a vote button reaches the hook.
\<close>

theorem card_serializes:
  assumes "card_run pid evs (useVote uid) = Some s"
  shows "length (inflight s) \<le> 1
    \<and> (inflight s \<noteq> [] \<longrightarrow> (\<forall>post k. card_step pid (Press post k) s = None))"
proof -
  have "serial pid s" using serial_run [OF serial_useVote assms] .
  then show ?thesis
    unfolding serial_def by (simp add: pressVote_def)
qed

theorem card_serializes_witness:
  "card_run ''p'' [Press (mkPost ''p'') Green, Elapse 300, TimerFires 1] (useVote (Some ''u''))
     = Some \<lparr> userId = Some ''u'', isVoting = True, optimisticVotes = [''p'' \<mapsto> Some Green],
         voteTimeouts = [''p'' \<mapsto> 1], clock = 300, nextHandle = 2, timers = [],
         nextCall = 2, inflight = [(1, VoteOnPost ''u'' ''p'' Green)],
         sent = [VoteOnPost ''u'' ''p'' Green] \<rparr>
   \<and> card_step ''p'' (Press (mkPost ''p'') Red)
         \<lparr> userId = Some ''u'', isVoting = True, optimisticVotes = [''p'' \<mapsto> Some Green],
           voteTimeouts = [''p'' \<mapsto> 1], clock = 300, nextHandle = 2, timers = [],
           nextCall = 2, inflight = [(1, VoteOnPost ''u'' ''p'' Green)],
           sent = [VoteOnPost ''u'' ''p'' Green] \<rparr> = None"
proof -
  let ?fin = "\<lparr> userId = Some ''u'', isVoting = True, optimisticVotes = [''p'' \<mapsto> Some Green],
       voteTimeouts = [''p'' \<mapsto> 1], clock = 300, nextHandle = 2, timers = [],
       nextCall = 2, inflight = [(1, VoteOnPost ''u'' ''p'' Green)],
       sent = [VoteOnPost ''u'' ''p'' Green] \<rparr>"
  have r: "card_run ''p'' [Press (mkPost ''p'') Green, Elapse 300, TimerFires 1]
             (useVote (Some ''u'')) = Some ?fin"
    by (simp add: pressVote_def handleVote_def effectiveVote_def getEffectiveVote_def mkPost_def
        useVote_def vote_def setTimeout_def clearTimeout_def issue_def)
  from card_serializes [OF r] have "card_step ''p'' (Press (mkPost ''p'') Red) ?fin = None"
    by simp
  with r show ?thesis by (simp del: card_run.simps card_step.simps)
qed

subsection \<open>Reverting a failed submission\<close>

text \<open>
  C4. When the awaited call of a debounced submission for post \<open>p\<close> fails (an error result
  or an exception), the entry of \<open>p\<close> in \<open>optimisticVotes\<close> is deleted, so that
  \<open>getEffectiveVote\<close> for \<open>p\<close> returns the server's vote it is given, whatever it is.
\<close>

theorem failed_submission_reverts:
  assumes "map_of (inflight s) c = Some r" and "request_post r = p"
    and "out = Failed \<or> out = Threw"
  shows "\<exists>s'. step (Resolve c out) s = Some s'
           \<and> optimisticVotes s' p = None
           \<and> (\<forall>serverVote. getEffectiveVote s' p serverVote = serverVote)"
  using assms by (auto simp: afterAwait_def getEffectiveVote_def)

theorem failed_submission_reverts_witness:
  "run [CallVote ''p'' Green, Tick 300, Fire 1] (useVote (Some ''u''))
     = Some \<lparr> userId = Some ''u'', isVoting = True, optimisticVotes = [''p'' \<mapsto> Some Green],
         voteTimeouts = [''p'' \<mapsto> 1], clock = 300, nextHandle = 2, timers = [],
         nextCall = 2, inflight = [(1, VoteOnPost ''u'' ''p'' Green)],
         sent = [VoteOnPost ''u'' ''p'' Green] \<rparr>
   \<and> (\<exists>s'. step (Resolve 1 Failed)
              \<lparr> userId = Some ''u'', isVoting = True, optimisticVotes = [''p'' \<mapsto> Some Green],
                voteTimeouts = [''p'' \<mapsto> 1], clock = 300, nextHandle = 2, timers = [],
                nextCall = 2, inflight = [(1, VoteOnPost ''u'' ''p'' Green)],
                sent = [VoteOnPost ''u'' ''p'' Green] \<rparr> = Some s'
           \<and> optimisticVotes s' ''p'' = None
           \<and> getEffectiveVote s' ''p'' (Some Red) = Some Red)"
proof -
  let ?fin = "\<lparr> userId = Some ''u'', isVoting = True, optimisticVotes = [''p'' \<mapsto> Some Green],
       voteTimeouts = [''p'' \<mapsto> 1], clock = 300, nextHandle = 2, timers = [],
       nextCall = 2, inflight = [(1, VoteOnPost ''u'' ''p'' Green)],
       sent = [VoteOnPost ''u'' ''p'' Green] \<rparr>"
  have r: "run [CallVote ''p'' Green, Tick 300, Fire 1] (useVote (Some ''u'')) = Some ?fin"
    by (simp add: useVote_def vote_def setTimeout_def clearTimeout_def issue_def)
  have h: "map_of (inflight ?fin) 1 = Some (VoteOnPost ''u'' ''p'' Green)"
    by simp
  from failed_submission_reverts [OF h, of "''p''" Failed]
  obtain s' where "step (Resolve 1 Failed) ?fin = Some s'" "optimisticVotes s' ''p'' = None"
    "getEffectiveVote s' ''p'' (Some Red) = Some Red"
    by auto
  with r show ?thesis by (simp del: run.simps step.simps)
qed

subsection \<open>Tapping the effective vote again\<close>

text \<open>
  C3. With a user signed in, a tap on the kind that is the effective vote of the post
  arms the callback of \<^verbatim>\<open>removeVote\<close>, and a tap on another kind (or with no effective
  vote) arms the callback of \<^verbatim>\<open>vote\<close> for the tapped kind: 300 ms later that timer fires
  and the call it adds to the log is \<^verbatim>\<open>removeVote\<close> in the first case and \<^verbatim>\<open>voteOnPost\<close>
  with the tapped kind in the second; it cannot fire earlier. \<^verbatim>\<open>toggleVote\<close>, given the
  effective vote, does the same as the card's \<^verbatim>\<open>handleVote\<close>.
\<close>

theorem retap_removes:
  assumes "userId s = Some u" and "u \<noteq> []"
  shows "(\<exists>s'. run [Tick 300, Fire (nextHandle s)] (handleVote post k s) = Some s'
           \<and> sent s' = sent s @ [if effectiveVote s post = Some k
                                  then RemoveVote u (post_id post)
                                  else VoteOnPost u (post_id post) k])
    \<and> toggleVote (post_id post) (effectiveVote s post) k s = handleVote post k s
    \<and> (\<forall>n<300. run [Tick n, Fire (nextHandle s)] (handleVote post k s) = None)"
proof (cases "effectiveVote s post = Some k")
  case True
  let ?s1 = "removeVote (post_id post) s"
  let ?s2 = "runCallback (SubmitRemove u (post_id post))
               (clearTimeout (nextHandle s) (?s1\<lparr> clock := clock ?s1 + 300 \<rparr>))"
  have hv: "handleVote post k s = ?s1" "toggleVote (post_id post) (effectiveVote s post) k s = ?s1"
    using assms True by (simp_all add: handleVote_def toggleVote_def)
  note f = removeVote_fields [OF assms, of "post_id post"]
  have r: "run [Tick 300, Fire (nextHandle s)] ?s1 = Some ?s2"
    by (rule fire_armed [OF f(7)]) (simp add: f(5))
  have e: "\<forall>n<300. run [Tick n, Fire (nextHandle s)] ?s1 = None"
    using fire_early [OF f(7)] by (simp add: f(5) del: run.simps)
  have l: "sent ?s2 = sent s @ [RemoveVote u (post_id post)]"
    by (simp add: issue_def clearTimeout_def f(10))
  show ?thesis
    unfolding hv using r e l True by (simp del: run.simps)
next
  case False
  let ?s1 = "vote (post_id post) k s"
  let ?s2 = "runCallback (SubmitVote u (post_id post) k)
               (clearTimeout (nextHandle s) (?s1\<lparr> clock := clock ?s1 + 300 \<rparr>))"
  have hv: "handleVote post k s = ?s1" "toggleVote (post_id post) (effectiveVote s post) k s = ?s1"
    using assms False by (simp_all add: handleVote_def toggleVote_def)
  note f = vote_fields [OF assms, of "post_id post" k]
  have r: "run [Tick 300, Fire (nextHandle s)] ?s1 = Some ?s2"
    by (rule fire_armed [OF f(7)]) (simp add: f(5))
  have e: "\<forall>n<300. run [Tick n, Fire (nextHandle s)] ?s1 = None"
    using fire_early [OF f(7)] by (simp add: f(5) del: run.simps)
  have l: "sent ?s2 = sent s @ [VoteOnPost u (post_id post) k]"
    by (simp add: issue_def clearTimeout_def f(10))
  show ?thesis
    unfolding hv using r e l False by (simp del: run.simps)
qed

theorem retap_removes_witness:
  "userId (useVote (Some ''u'')) = Some ''u'' \<and> ''u'' \<noteq> []
   \<and> (\<exists>s'. run [Tick 300, Fire 1]
            (handleVote \<lparr> post_id = ''p'', created_by = ''a'', image_url = ''i'',
               person_name = None, description = None, is_active = True, created_at = ''t'',
               green_votes = Some 1, red_votes = Some 0, user_vote = Some Green,
               profiles = None \<rparr> Green (useVote (Some ''u''))) = Some s'
        \<and> sent s' = [RemoveVote ''u'' ''p''])"
  using retap_removes [of "useVote (Some ''u'')" "''u''"
      "\<lparr> post_id = ''p'', created_by = ''a'', image_url = ''i'',
         person_name = None, description = None, is_active = True, created_at = ''t'',
         green_votes = Some 1, red_votes = Some 0, user_vote = Some Green,
         profiles = None \<rparr>" Green]
  by (simp add: useVote_def effectiveVote_def getEffectiveVote_def)

subsection \<open>A green vote on a post without votes\<close>

text \<open>
  C9. A signed-in viewer taps green on a post \<open>P\<close> that shows 0 green, 0 red and no vote
  of the viewer. At once the effective vote is green and the card shows 1 green, 0 red;
  nothing has been sent and the timer cannot fire before 300 ms; at 300 ms it fires and
  exactly one call, \<^verbatim>\<open>voteOnPost\<close> green, is issued. When the call succeeds (after any
  delay \<open>d\<close>), the optimistic entry stays and a timer is armed 1000 ms ahead, which cannot
  fire earlier; when it fires the entry is gone, no further call has been issued, and
  for the post as the server then reports it (\<open>P'\<close>: 1 green, 0 red, the viewer's vote
  green) the card shows 1 green, 0 red, during the grace second as well as after it.
\<close>

theorem green_vote_scenario:
  assumes "u \<noteq> []"
    and "green_votes P = Some 0" and "red_votes P = Some 0" and "user_vote P = None"
    and "P' = P\<lparr> green_votes := Some 1, user_vote := Some Green \<rparr>"
  shows "\<exists>s1 s2 s3 s4.
           s1 = handleVote P Green (useVote (Some u))
         \<and> effectiveVote s1 P = Some Green
         \<and> greenCount P (effectiveVote s1 P) = 1 \<and> redCount P (effectiveVote s1 P) = 0
         \<and> sent s1 = []
         \<and> (\<forall>n<300. run [Tick n, Fire 1] s1 = None)
         \<and> run [Tick 300, Fire 1] s1 = Some s2
         \<and> sent s2 = [VoteOnPost u (post_id P) Green]
         \<and> inflight s2 = [(1, VoteOnPost u (post_id P) Green)]
         \<and> timers s2 = []
         \<and> run [Tick d, Resolve 1 Succeeded] s2 = Some s3
         \<and> sent s3 = sent s2 \<and> inflight s3 = []
         \<and> timers s3 = [(2, 300 + d + 1000, ClearOptimistic (post_id P))]
         \<and> effectiveVote s3 P = Some Green
         \<and> greenCount P (effectiveVote s3 P) = 1 \<and> redCount P (effectiveVote s3 P) = 0
         \<and> greenCount P' (effectiveVote s3 P') = 1 \<and> redCount P' (effectiveVote s3 P') = 0
         \<and> (\<forall>n<1000. run [Tick n, Fire 2] s3 = None)
         \<and> run [Tick 1000, Fire 2] s3 = Some s4
         \<and> optimisticVotes s4 (post_id P) = None
         \<and> sent s4 = [VoteOnPost u (post_id P) Green] \<and> inflight s4 = [] \<and> timers s4 = []
         \<and> effectiveVote s4 P' = Some Green
         \<and> greenCount P' (effectiveVote s4 P') = 1 \<and> redCount P' (effectiveVote s4 P') = 0"
proof -
  let ?p = "post_id P"
  let ?s1 = "\<lparr> userId = Some u, isVoting = False, optimisticVotes = [?p \<mapsto> Some Green],
       voteTimeouts = [?p \<mapsto> 1], clock = 0, nextHandle = 2,
       timers = [(1, 300, SubmitVote u ?p Green)],
       nextCall = 1, inflight = [], sent = [] \<rparr>"
  let ?s2 = "\<lparr> userId = Some u, isVoting = True, optimisticVotes = [?p \<mapsto> Some Green],
       voteTimeouts = [?p \<mapsto> 1], clock = 300, nextHandle = 2,
       timers = [],
       nextCall = 2, inflight = [(1, VoteOnPost u ?p Green)], sent = [VoteOnPost u ?p Green] \<rparr>"
  let ?s3 = "\<lparr> userId = Some u, isVoting = False, optimisticVotes = [?p \<mapsto> Some Green],
       voteTimeouts = Map.empty, clock = 300 + d, nextHandle = 3,
       timers = [(2, 300 + d + 1000, ClearOptimistic ?p)],
       nextCall = 2, inflight = [], sent = [VoteOnPost u ?p Green] \<rparr>"
  let ?s4 = "\<lparr> userId = Some u, isVoting = False, optimisticVotes = Map.empty,
       voteTimeouts = Map.empty, clock = 300 + d + 1000, nextHandle = 3,
       timers = [],
       nextCall = 2, inflight = [], sent = [VoteOnPost u ?p Green] \<rparr>"
  have s1: "handleVote P Green (useVote (Some u)) = ?s1"
    using assms by (simp add: handleVote_def effectiveVote_def getEffectiveVote_def useVote_def vote_def
        setTimeout_def)
  have e1: "effectiveVote ?s1 P = Some Green"
    by (simp add: effectiveVote_def getEffectiveVote_def)
  have c1: "greenCount P (Some Green) = 1" "redCount P (Some Green) = 0"
    using assms by (simp_all add: greenCount_def redCount_def)
  have c1': "greenCount P' (Some Green) = 1" "redCount P' (Some Green) = 0"
    using assms by (simp_all add: greenCount_def redCount_def)
  have n1: "\<forall>n<300. run [Tick n, Fire 1] ?s1 = None"
    by simp
  have r2: "run [Tick 300, Fire 1] ?s1 = Some ?s2"
    by (simp add: clearTimeout_def issue_def afterAwait_def setTimeout_def)
  have r3: "run [Tick d, Resolve 1 Succeeded] ?s2 = Some ?s3"
    by (simp add: clearTimeout_def issue_def afterAwait_def setTimeout_def)
  have e3: "effectiveVote ?s3 P = Some Green" "effectiveVote ?s3 P' = Some Green"
    using assms by (simp_all add: effectiveVote_def getEffectiveVote_def)
  have n3: "\<forall>n<1000. run [Tick n, Fire 2] ?s3 = None"
    by simp
  have r4: "run [Tick 1000, Fire 2] ?s3 = Some ?s4"
    by (simp add: clearTimeout_def issue_def afterAwait_def setTimeout_def)
  have e4: "effectiveVote ?s4 P' = Some Green"
    using assms by (simp add: effectiveVote_def getEffectiveVote_def)
  show ?thesis
    apply (rule exI [of _ ?s1], rule exI [of _ ?s2], rule exI [of _ ?s3], rule exI [of _ ?s4])
    apply (simp only: s1 e1 c1 c1' n1 r2 r3 e3 n3 r4 e4)
    apply simp
    done
qed

theorem green_vote_scenario_witness:
  "''u'' \<noteq> []
   \<and> (\<exists>s1 s2. s1 = handleVote \<lparr> post_id = ''p'', created_by = ''a'', image_url = ''i'',
               person_name = None, description = None, is_active = True, created_at = ''t'',
               green_votes = Some 0, red_votes = Some 0, user_vote = None,
               profiles = None \<rparr> Green (useVote (Some ''u''))
        \<and> run [Tick 300, Fire 1] s1 = Some s2
        \<and> sent s2 = [VoteOnPost ''u'' ''p'' Green])"
  using green_vote_scenario [of "''u''"
      "\<lparr> post_id = ''p'', created_by = ''a'', image_url = ''i'',
         person_name = None, description = None, is_active = True, created_at = ''t'',
         green_votes = Some 0, red_votes = Some 0, user_vote = None,
         profiles = None \<rparr>"
      "\<lparr> post_id = ''p'', created_by = ''a'', image_url = ''i'',
         person_name = None, description = None, is_active = True, created_at = ''t'',
         green_votes = Some 1, red_votes = Some 0, user_vote = Some Green,
         profiles = None \<rparr>" 0]
  by (simp del: run.simps) blast

section \<open>Properties of the feed hook\<close>

subsection \<open>Refresh\<close>

text \<open>
  C7. \<^verbatim>\<open>refresh\<close> asks for offset 0 and awaits a load of page 0 that replaces. In a mounted
  hook, whatever happened in between, when an awaited load of page 0 returns a page \<open>ps\<close>
  without an error, \<open>ps\<close> becomes the whole list: a post that was in the list and is not
  in \<open>ps\<close> is no longer in the list (by value and by id), \<open>page\<close> is 0 and \<open>hasMore\<close>
  says whether the page is full.
\<close>

theorem refresh_replaces:
  assumes "mounted s" and "\<not> truthy err" and "map_of (loads s) c = Some (0, replace)"
  shows "(\<exists>s'. feed_step (Settle c (Returned (Some ps) err)) s = Some s'
           \<and> posts s' = ps \<and> page s' = 0 \<and> hasMore s' = (length ps = pageSize)
           \<and> (\<forall>x\<in>set (posts s). x \<notin> set ps \<longrightarrow> x \<notin> set (posts s'))
           \<and> (\<forall>x\<in>set (posts s). post_id x \<notin> post_id ` set ps
                 \<longrightarrow> post_id x \<notin> post_id ` set (posts s')))
   \<and> map_of (loads (refresh s)) (nextLoad s) = Some (0, True)
   \<and> requests (refresh s) = requests s @ [(feedUserId s, pageSize, 0)]"
  using assms
  by (simp add: refresh_def loadPosts_call_def loadPosts_resume_def loadPosts_finally_def)

theorem refresh_replaces_witness:
  "mounted (refresh (handleNewPost (mkPost ''X'') (usePosts (Some ''u'')))) \<and> \<not> truthy None
   \<and> map_of (loads (refresh (handleNewPost (mkPost ''X'') (usePosts (Some ''u''))))) 1
       = Some (0, True)
   \<and> posts (refresh (handleNewPost (mkPost ''X'') (usePosts (Some ''u'')))) = [mkPost ''X'']
   \<and> (\<exists>s'. feed_step (Settle 1 (Returned (Some [mkPost ''A'']) None))
              (refresh (handleNewPost (mkPost ''X'') (usePosts (Some ''u'')))) = Some s'
        \<and> posts s' = [mkPost ''A''] \<and> page s' = 0 \<and> \<not> hasMore s')"
proof -
  let ?st = "refresh (handleNewPost (mkPost ''X'') (usePosts (Some ''u'')))"
  have m: "mounted ?st"
    by (simp add: refresh_def handleNewPost_def usePosts_def loadPosts_call_def)
  have e: "\<not> truthy None"
    by simp
  have l: "map_of (loads ?st) 1 = Some (0, True)"
    by (simp add: refresh_def handleNewPost_def usePosts_def loadPosts_call_def)
  have p: "posts ?st = [mkPost ''X'']"
    by (simp add: refresh_def handleNewPost_def usePosts_def loadPosts_call_def)
  from refresh_replaces [OF m e l, of "[mkPost ''A'']"]
  obtain s' where s': "feed_step (Settle 1 (Returned (Some [mkPost ''A'']) None)) ?st = Some s'"
    "posts s' = [mkPost ''A'']" "page s' = 0" "hasMore s' = (length [mkPost ''A''] = pageSize)"
    by blast
  from s'(4) have "\<not> hasMore s'"
    by (simp add: pageSize_def)
  with s'(1,2,3) m e l p show ?thesis
    by blast
qed

subsection \<open>Re-entrant loads\<close>

text \<open>
  C8, as the claim states it, fails: while the load started by the mount effect is awaited
  (\<open>isLoading\<close> is true), \<^verbatim>\<open>refresh\<close> issues a second \<^verbatim>\<open>getPosts\<close> call, and so does
  \<^verbatim>\<open>loadMore\<close>, for page 1.
\<close>

theorem refresh_reentrant_counterexample:
  "isLoading (mount (usePosts (Some ''u'')))
   \<and> loads (mount (usePosts (Some ''u''))) = [(1, 0, True)]
   \<and> requests (mount (usePosts (Some ''u''))) = [(Some ''u'', 20, 0)]
   \<and> requests (refresh (mount (usePosts (Some ''u''))))
       = [(Some ''u'', 20, 0), (Some ''u'', 20, 0)]
   \<and> loads (refresh (mount (usePosts (Some ''u'')))) = [(2, 0, True), (1, 0, True)]
   \<and> requests (loadMore (mount (usePosts (Some ''u''))))
       = [(Some ''u'', 20, 0), (Some ''u'', 20, 20)]"
  by (simp add: mount_def usePosts_def refresh_def loadMore_def loadPosts_call_def pageSize_def)

text \<open>
  C8, amended. \<^verbatim>\<open>loadMore\<close> is guarded by the flags \<open>isLoadingMore\<close> and \<open>hasMore\<close>: when
  \<open>isLoadingMore\<close> is true or \<open>hasMore\<close> is false it changes nothing at all (no call, the
  same list, the same pagination state), and the feed's \<^verbatim>\<open>handleEndReached\<close> calls it only
  when, moreover, \<open>isLoading\<close> is false. \<^verbatim>\<open>refresh\<close> has no guard in the hook: every call
  issues a fetch of page 0.
\<close>

theorem loadMore_guarded:
  "(isLoadingMore s \<or> \<not> hasMore s \<longrightarrow> loadMore s = s)
   \<and> (isLoadingMore s \<or> \<not> hasMore s \<or> isLoading s \<longrightarrow> handleEndReached s = s)
   \<and> requests (refresh s) = requests s @ [(feedUserId s, pageSize, 0)]"
  by (simp add: loadMore_def handleEndReached_def refresh_def loadPosts_call_def)

theorem loadMore_guarded_witness:
  "isLoadingMore (loadMore (usePosts None))
   \<and> requests (loadMore (usePosts None)) = [(None, 20, 20)]
   \<and> loadMore (loadMore (usePosts None)) = loadMore (usePosts None)
   \<and> handleEndReached (loadMore (usePosts None)) = loadMore (usePosts None)"
proof -
  have h: "isLoadingMore (loadMore (usePosts None))"
    by (simp add: loadMore_def usePosts_def loadPosts_call_def)
  have r: "requests (loadMore (usePosts None)) = [(None, 20, 20)]"
    by (simp add: loadMore_def usePosts_def loadPosts_call_def pageSize_def)
  show ?thesis
    using h r loadMore_guarded [of "loadMore (usePosts None)"] by simp
qed

subsection \<open>No two posts with the same id\<close>

lemma posts_loadPosts_call [simp]: "posts (loadPosts_call n r s) = posts s"
  by (simp add: loadPosts_call_def Let_def)

lemma posts_finally [simp]: "posts (loadPosts_finally s) = posts s"
  by (simp add: loadPosts_finally_def)

lemma distinct_append_unique:
  assumes "distinct (ids xs)" and "distinct (ids ps)"
  shows "distinct (ids (xs @ filter (\<lambda>p. post_id p \<notin> set (ids xs)) ps))"
proof -
  have "set (ids xs) \<inter> set (ids (filter (\<lambda>p. post_id p \<notin> set (ids xs)) ps)) = {}"
    by (auto simp: ids_def) (metis imageI)
  moreover have "distinct (ids (filter (\<lambda>p. post_id p \<notin> set (ids xs)) ps))"
    using assms(2) by (simp add: ids_def distinct_map_filter)
  ultimately show ?thesis
    using assms(1) by (simp add: ids_def)
qed

lemma posts_resume:
  "posts (loadPosts_resume n r f s) = posts s
   \<or> (\<exists>ps err. f = Returned (Some ps) err \<and>
        (posts (loadPosts_resume n r f s) = ps
         \<or> posts (loadPosts_resume n r f s)
              = posts s @ filter (\<lambda>p. post_id p \<notin> set (ids (posts s))) ps))"
  by (cases f) (auto simp: loadPosts_resume_def ids_def Let_def split: option.split)

lemma feed_step_distinct:
  assumes "distinct (ids (posts s))" and "distinct (ids (page_of e))"
    and "feed_step e s = Some s'"
  shows "distinct (ids (posts s'))"
proof (cases e)
  case Refresh
  then show ?thesis using assms by (auto simp: refresh_def)
next
  case LoadMore
  then show ?thesis using assms by (auto simp: loadMore_def)
next
  case (Settle c f)
  then obtain n r where s': "s' = loadPosts_resume n r f (s\<lparr> loads := filter (\<lambda>x. fst x \<noteq> c) (loads s) \<rparr>)"
    using assms(3) by (auto split: option.splits)
  let ?t = "s\<lparr> loads := filter (\<lambda>x. fst x \<noteq> c) (loads s) \<rparr>"
  have pt: "posts ?t = posts s" by simp
  from posts_resume [of n r f ?t] show ?thesis
    using assms(1,2) Settle distinct_append_unique [of "posts s" "page_of e"]
    unfolding s' pt by auto
next
  case (NewPost q)
  have "post_id q \<notin> set (ids (posts s))" if "\<not> list_ex (\<lambda>p. post_id p = post_id q) (posts s)"
    using that by (force simp: ids_def list_ex_iff)
  then show ?thesis using assms NewPost
    by (auto simp: handleNewPost_def ids_def split: if_splits)
next
  case Unmount
  then show ?thesis using assms by (auto simp: unmount_def)
qed

lemma feed_run_distinct:
  assumes "distinct (ids (posts s))" and "\<forall>e\<in>set evs. distinct (ids (page_of e))"
    and "feed_run evs s = Some s'"
  shows "distinct (ids (posts s'))"
  using assms
proof (induction evs arbitrary: s)
  case Nil
  then show ?case by simp
next
  case (Cons e evs)
  from Cons.prems(3) obtain s1 where s1: "feed_step e s = Some s1" "feed_run evs s1 = Some s'"
    by (auto split: option.splits)
  have "distinct (ids (posts s1))"
    using feed_step_distinct [OF Cons.prems(1) _ s1(1)] Cons.prems(2) by simp
  then show ?case using Cons.IH [OF _ _ s1(2)] Cons.prems(2) by simp
qed


text \<open>
  A page that \<^verbatim>\<open>getPosts\<close> returns has the ids of the rows its posts query answered, in
  their order: it repeats an id only if the rows do.
\<close>

lemma getPosts_ids:
  assumes "getPosts uid (Response (Some rows) err) votesQuery userVotesQuery = (Some ps, e)"
  shows "ids ps = map row_id rows"
proof -
  have "post_id (withVotes votes uv row) = row_id row" for votes uv row
    by (simp add: withVotes_def Let_def)
  then have w: "map post_id (map (withVotes votes uv) rows) = map row_id rows" for votes uv
    by simp
  show ?thesis
    using assms w unfolding ids_def getPosts_def
    by (auto split: if_splits response.splits)
qed

text \<open>
  C5. Start from a list without two posts of the same id (the empty list of a new hook is
  one) and let refreshes, \<^verbatim>\<open>loadMore\<close> calls, settling loads, realtime inserts and the
  unmount happen in any order, each page that \<^verbatim>\<open>getPosts\<close> returns being free of repeated
  ids (it is a page of rows of one table, keyed by id). Then the list never has two posts
  with the same id. In the state reached, an appending load that returns a page appends
  exactly the posts of the page whose id is not in the list, and a realtime insert of a
  post whose id is in the list changes nothing.
\<close>

theorem feed_never_duplicates:
  assumes "distinct (ids (posts s0))"
    and "\<forall>e\<in>set evs. distinct (ids (page_of e))"
    and "feed_run evs s0 = Some s"
  shows "distinct (ids (posts s))
    \<and> (\<forall>n ps err. n \<noteq> 0 \<longrightarrow> mounted s \<longrightarrow> \<not> truthy err \<longrightarrow>
          posts (loadPosts_resume n False (Returned (Some ps) err) s)
            = posts s @ filter (\<lambda>p. post_id p \<notin> set (ids (posts s))) ps)
    \<and> (\<forall>q. post_id q \<in> set (ids (posts s)) \<longrightarrow> handleNewPost q s = s)"
proof (intro conjI allI impI)
  show "distinct (ids (posts s))"
    using assms by (rule feed_run_distinct)
next
  fix n :: nat and ps err
  assume "n \<noteq> 0" "mounted s" "\<not> truthy err"
  then show "posts (loadPosts_resume n False (Returned (Some ps) err) s)
               = posts s @ filter (\<lambda>p. post_id p \<notin> set (ids (posts s))) ps"
    by (simp add: loadPosts_resume_def ids_def)
next
  fix q :: post
  assume "post_id q \<in> set (ids (posts s))"
  then have "list_ex (\<lambda>p. post_id p = post_id q) (posts s)"
    by (auto simp: ids_def list_ex_iff)
  then show "handleNewPost q s = s"
    by (simp add: handleNewPost_def)
qed

lemma post_id_mkPost [simp]: "post_id (mkPost i) = i"
  by (simp add: mkPost_def)

theorem feed_never_duplicates_witness:
  "distinct (ids (posts (mount (usePosts None))))
   \<and> distinct (ids [mkPost ''A'', mkPost ''B''])
   \<and> (\<exists>s. feed_run [Settle 1 (Returned (Some [mkPost ''A'', mkPost ''B'']) None),
                      NewPost (mkPost ''A'')] (mount (usePosts None)) = Some s
          \<and> ids (posts s) = [''A'', ''B''] \<and> distinct (ids (posts s)))"
proof -
  let ?evs = "[Settle 1 (Returned (Some [mkPost ''A'', mkPost ''B'']) None), NewPost (mkPost ''A'')]"
  let ?s = "\<lparr> feedUserId = None, posts = [mkPost ''A'', mkPost ''B''], isLoading = False,
      isLoadingMore = False, error = None, hasMore = False, page = 0, mounted = True,
      nextLoad = 2, loads = [], requests = [(None, 20, 0)] \<rparr>"
  have d: "distinct (ids (posts (mount (usePosts None))))"
    by (simp add: mount_def usePosts_def ids_def)
  have p: "\<forall>e\<in>set ?evs. distinct (ids (page_of e))"
    by (simp add: ids_def)
  have r: "feed_run ?evs (mount (usePosts None)) = Some ?s"
    by (simp add: mount_def usePosts_def loadPosts_call_def loadPosts_resume_def
        loadPosts_finally_def handleNewPost_def pageSize_def)
  have i: "ids (posts ?s) = [''A'', ''B'']"
    by (simp add: ids_def)
  have dp: "distinct (ids [mkPost ''A'', mkPost ''B''])"
    by (simp add: ids_def)
  show ?thesis
    using d dp r i feed_never_duplicates [OF d p r] by (simp del: feed_run.simps)
qed

subsection \<open>Realtime inserts stay in front of paginated posts\<close>

lemma decompose_same:
  assumes "xs' = xs"
  shows "\<exists>ins app. xs' = ins @ xs @ app \<and> set ins \<subseteq> A \<and> set app \<subseteq> B"
  using assms by (intro exI [of _ "[]"]) simp

lemma decompose_cons:
  assumes "xs' = q # xs" and "q \<in> A"
  shows "\<exists>ins app. xs' = ins @ xs @ app \<and> set ins \<subseteq> A \<and> set app \<subseteq> B"
  using assms by (intro exI [of _ "[q]"] exI [of _ "[]"]) simp

lemma decompose_app:
  assumes "xs' = xs @ app" and "set app \<subseteq> B"
  shows "\<exists>ins app. xs' = ins @ xs @ app \<and> set ins \<subseteq> A \<and> set app \<subseteq> B"
  using assms by (intro exI [of _ "[]"] exI [of _ app]) simp

lemma step_decompose:
  assumes "appending s" and "e \<noteq> Refresh" and "feed_step e s = Some s'"
  shows "(\<exists>ins app. posts s' = ins @ posts s @ app
           \<and> set ins \<subseteq> set (realtime_of e) \<and> set app \<subseteq> set (page_of e)) \<and> appending s'"
proof (cases e)
  case Refresh
  then show ?thesis using assms by simp
next
  case LoadMore
  then have "posts s' = posts s" "appending s'"
    using assms by (auto simp: loadMore_def appending_def loadPosts_call_def)
  then show ?thesis by (intro conjI decompose_same)
next
  case (Settle c f)
  let ?t = "s\<lparr> loads := filter (\<lambda>x. fst x \<noteq> c) (loads s) \<rparr>"
  from Settle obtain n r where m: "map_of (loads s) c = Some (n, r)"
    and s': "s' = loadPosts_resume n r f ?t"
    using assms(3) by (auto split: option.splits)
  from m have "(c, n, r) \<in> set (loads s)" by (rule map_of_SomeD)
  then have nr: "n \<noteq> 0" "\<not> r"
    using assms(1) by (auto simp: appending_def list_all_iff)
  have l: "loads s' = loads ?t"
    by (cases f) (simp_all add: s' loadPosts_resume_def loadPosts_finally_def Let_def split: option.split)
  have a: "appending s'"
    using assms(1) by (simp add: l appending_def list_all_iff)
  have "posts s' = posts s
     \<or> (\<exists>ps err. f = Returned (Some ps) err
          \<and> posts s' = posts s @ filter (\<lambda>p. post_id p \<notin> set (ids (posts s))) ps)"
    using nr by (cases f) (auto simp: s' loadPosts_resume_def ids_def Let_def split: option.split)
  then show ?thesis
  proof
    assume "posts s' = posts s"
    then show ?thesis using a by (intro conjI decompose_same)
  next
    assume "\<exists>ps err. f = Returned (Some ps) err
          \<and> posts s' = posts s @ filter (\<lambda>p. post_id p \<notin> set (ids (posts s))) ps"
    then obtain ps err where f: "f = Returned (Some ps) err"
      and p: "posts s' = posts s @ filter (\<lambda>p. post_id p \<notin> set (ids (posts s))) ps"
      by blast
    have "set (filter (\<lambda>p. post_id p \<notin> set (ids (posts s))) ps) \<subseteq> set (page_of e)"
      using Settle f by auto
    with p a show ?thesis by (intro conjI decompose_app)
  qed
next
  case (NewPost q)
  then have p: "posts s' = posts s \<or> posts s' = q # posts s" and a: "appending s'"
    using assms by (auto simp: handleNewPost_def appending_def split: if_splits)
  have q: "q \<in> set (realtime_of e)"
    using NewPost by simp
  from p show ?thesis
  proof
    assume "posts s' = posts s"
    then show ?thesis using a by (intro conjI decompose_same)
  next
    assume "posts s' = q # posts s"
    then show ?thesis using a q by (intro conjI decompose_cons)
  qed
next
  case Unmount
  then have "posts s' = posts s" "appending s'"
    using assms by (auto simp: unmount_def appending_def)
  then show ?thesis by (intro conjI decompose_same)
qed

lemma run_decompose:
  assumes "appending s" and "Refresh \<notin> set evs" and "feed_run evs s = Some s'"
  shows "\<exists>ins app. posts s' = ins @ posts s @ app
           \<and> set ins \<subseteq> set (concat (map realtime_of evs))
           \<and> set app \<subseteq> set (concat (map page_of evs))"
  using assms
proof (induction evs arbitrary: s)
  case Nil
  then show ?case by simp
next
  case (Cons e evs)
  from Cons.prems(3) obtain s1 where s1: "feed_step e s = Some s1" "feed_run evs s1 = Some s'"
    by (auto split: option.splits)
  from Cons.prems(2) have ne: "e \<noteq> Refresh" "Refresh \<notin> set evs" by auto
  from step_decompose [OF Cons.prems(1) ne(1) s1(1)]
  obtain i1 a1 where d1: "posts s1 = i1 @ posts s @ a1" "set i1 \<subseteq> set (realtime_of e)"
    "set a1 \<subseteq> set (page_of e)" and d14: "appending s1" by blast
  from Cons.IH [OF d14 ne(2) s1(2)]
  obtain i2 a2 where d2: "posts s' = i2 @ posts s1 @ a2"
    "set i2 \<subseteq> set (concat (map realtime_of evs))"
    "set a2 \<subseteq> set (concat (map page_of evs))" by blast
  have "posts s' = (i2 @ i1) @ posts s @ (a1 @ a2)"
    using d1(1) d2(1) by simp
  moreover have "set (i2 @ i1) \<subseteq> set (concat (map realtime_of (e # evs)))"
    using d1(2) d2(2) by auto
  moreover have "set (a1 @ a2) \<subseteq> set (concat (map page_of (e # evs)))"
    using d1(3) d2(3) by auto
  ultimately show ?case by blast
qed

text \<open>
  C6. In a mounted hook whose awaited loads are all appending ones, a realtime insert of a
  post \<open>q\<close> whose id is not in the list puts \<open>q\<close> at the front. Whatever follows without
  a refresh (\<^verbatim>\<open>loadMore\<close> calls, loads settling, further realtime inserts, in any order),
  the list is then \<open>ins @ q # old @ app\<close>: \<open>old\<close> is the list from before the insert,
  \<open>app\<close> holds only posts of pages that settled later, and \<open>ins\<close> only posts that later
  realtime inserts delivered. So \<open>q\<close> is before every post the list had and every post
  that pagination adds, and only realtime inserts are before \<open>q\<close>.
\<close>

theorem realtime_before_paginated:
  assumes "mounted s" and "appending s" and "Refresh \<notin> set evs"
    and "post_id q \<notin> set (ids (posts s))"
    and "feed_run (NewPost q # evs) s = Some s'"
  shows "posts (handleNewPost q s) = q # posts s
    \<and> (\<exists>ins app. posts s' = ins @ q # posts s @ app
           \<and> set ins \<subseteq> set (concat (map realtime_of evs))
           \<and> set app \<subseteq> set (concat (map page_of evs)))"
proof -
  have "\<not> list_ex (\<lambda>p. post_id p = post_id q) (posts s)"
    using assms(4) by (auto simp: ids_def list_ex_iff) (metis imageI)
  then have h: "handleNewPost q s = s\<lparr> posts := q # posts s \<rparr>"
    using assms(1) by (simp add: handleNewPost_def)
  have a: "appending (handleNewPost q s)"
    using assms(2) by (simp add: h appending_def)
  have r: "feed_run evs (handleNewPost q s) = Some s'"
    using assms(5) by simp
  from run_decompose [OF a assms(3) r] show ?thesis
    by (simp add: h)
qed

theorem realtime_before_paginated_witness:
  "mounted (loadMore (usePosts None)) \<and> appending (loadMore (usePosts None))
   \<and> post_id (mkPost ''N'') \<notin> set (ids (posts (loadMore (usePosts None))))
   \<and> (\<exists>s'. feed_run [NewPost (mkPost ''N''),
                       Settle 1 (Returned (Some [mkPost ''N'', mkPost ''C'']) None),
                       NewPost (mkPost ''M'')] (loadMore (usePosts None)) = Some s'
          \<and> posts s' = [mkPost ''M'', mkPost ''N'', mkPost ''C''])"
proof -
  let ?s = "loadMore (usePosts None)"
  let ?evs = "[Settle 1 (Returned (Some [mkPost ''N'', mkPost ''C'']) None), NewPost (mkPost ''M'')]"
  let ?s' = "\<lparr> feedUserId = None, posts = [mkPost ''M'', mkPost ''N'', mkPost ''C''],
      isLoading = False, isLoadingMore = False, error = None, hasMore = False, page = 1,
      mounted = True, nextLoad = 2, loads = [], requests = [(None, 20, 20)] \<rparr>"
  have m: "mounted ?s"
    by (simp add: loadMore_def usePosts_def loadPosts_call_def)
  have a: "appending ?s"
    by (simp add: appending_def loadMore_def usePosts_def loadPosts_call_def)
  have e: "Refresh \<notin> set ?evs"
    by simp
  have n: "post_id (mkPost ''N'') \<notin> set (ids (posts ?s))"
    by (simp add: ids_def loadMore_def usePosts_def)
  have r: "feed_run (NewPost (mkPost ''N'') # ?evs) ?s = Some ?s'"
    by (simp add: loadMore_def usePosts_def loadPosts_call_def loadPosts_resume_def
        loadPosts_finally_def handleNewPost_def pageSize_def)
  show ?thesis
    using m a n r realtime_before_paginated [OF m a e n r] by (simp del: feed_run.simps)
qed

section \<open>Properties of fetching a page\<close>

text \<open>
  C10, as the claim states it, fails when an enrichment query fails by throwing: the
  exception reaches the one \<^verbatim>\<open>catch\<close> of \<^verbatim>\<open>getPosts\<close> and the page fetched is lost.
\<close>

theorem enrichment_throw_counterexample:
  "getPosts (Some ''u'')
     (Response (Some [\<lparr> row_id = ''p'', row_created_by = ''a'', row_image_url = ''img'',
                       row_person_name = None, row_description = None,
                       row_is_active = Some True, row_created_at = ''t'',
                       row_profiles = None \<rparr>]) None)
     Throws (Response None None)
   = (None, Some ''Network error'')"
  by (simp add: getPosts_def)

text \<open>
  C10, amended. When the posts query answers with rows and no error, and the votes query
  and the query of the user's votes both answer without data (their \<^verbatim>\<open>data\<close> is \<^verbatim>\<open>null\<close>,
  whatever the error), \<^verbatim>\<open>getPosts\<close> returns no error and, in their order, the fetched
  rows: each post has every field of its row (\<^verbatim>\<open>is_active\<close> true when the row has none),
  0 green votes, 0 red votes and no vote of the viewer. When only the votes query answers
  without data the counts are 0, when only the query of the user's votes does there is
  no vote of the viewer, and whatever the two queries answer, no error is returned. When
  one of the two queries throws, for a page with rows, the result is no data and the
  error \<^verbatim>\<open>'Network error'\<close>.
\<close>

theorem enrichment_failure_degrades:
  "getPosts uid (Response (Some rows) None) (Response None verr) (Response None derr)
     = (Some (map (withVotes None []) rows), None)
   \<and> withVotes None [] row
       = \<lparr> post_id = row_id row,
           created_by = row_created_by row,
           image_url = row_image_url row,
           person_name = row_person_name row,
           description = row_description row,
           is_active = (case row_is_active row of None \<Rightarrow> True | Some b \<Rightarrow> b),
           created_at = row_created_at row,
           green_votes = Some 0,
           red_votes = Some 0,
           user_vote = None,
           profiles = row_profiles row \<rparr>
   \<and> green_votes (withVotes None userVotes row) = Some 0
   \<and> red_votes (withVotes None userVotes row) = Some 0
   \<and> user_vote (withVotes votes [] row) = None
   \<and> snd (getPosts uid (Response (Some rows) None) (Response votes verr) (Response d derr))
       = None
   \<and> getPosts uid (Response (Some (row # rows)) None) Throws userVotesQuery
       = (None, Some ''Network error'')
   \<and> getPosts (Some (c # u)) (Response (Some (row # rows)) None) (Response votes verr) Throws
       = (None, Some ''Network error'')"
  by (simp add: getPosts_def withVotes_def split: option.split)

end
